theory Spec2Isabelle
  imports Main
begin

section \<open>Data model of \<open>map_ordered.go\<close>\<close>

text \<open>
  \<open>Options\<close> (lines 14-20). Go's \<open>int\<close> and \<open>time.Duration\<close> are 64-bit signed integers;
  the code only compares them with \<open>0\<close> and with each other, so they are modelled as
  \<open>int\<close>.
\<close>

record Options =
  Workers :: int
  MaxInFlight :: int
  EarlyStopN :: int
  PanicAsError :: bool
  TaskTimeout :: int

text \<open>
  \<open>PanicError\<close> (lines 171-177): a struct with the single field \<open>Panic\<close> and the
  method \<open>Error()\<close>.
\<close>

datatype 'p PanicError = PanicError (Panic: 'p)

definition Error :: "'p PanicError \<Rightarrow> string" where
  "Error e = ''panic occurred''"

text \<open>
  A value of Go's interface type \<open>error\<close> as it occurs in the pipeline: either an error
  the transform returned itself, or the address of a \<open>PanicError\<close> built by the worker.
\<close>

datatype ('e, 'p) error = Failure 'e | Recovered "'p PanicError"

text \<open>\<open>Result[R]\<close> (lines 9-12); \<open>Err = None\<close> is Go's \<open>nil\<close>.\<close>

record ('r, 'e, 'p) Result =
  Value :: 'r
  Err :: "('e, 'p) error option"

text \<open>
  \<open>indexedTask[T]\<close> and \<open>indexedResult[R]\<close> (lines 22-30). Both structs call their
  first field \<open>index\<close>; the fields are prefixed here to keep them apart. The index is a
  Go \<open>int\<close> that starts at 0 and is only incremented, so it is a \<open>nat\<close>.
\<close>

record 't indexedTask =
  t_index :: nat
  t_value :: 't

record ('r, 'e, 'p) indexedResult =
  r_index :: nat
  r_res :: "('r, 'e, 'p) Result"

section \<open>The transform and its invocation by a worker\<close>

text \<open>
  What a call \<open>fn(taskCtx, task.value)\<close> can do: return a value and an optional error,
  or panic with a payload. What the transform can see of its context is whether the
  root context was already cancelled when it was called, and the deadline of the task
  context (present when \<open>TaskTimeout > 0\<close>, lines 136-140); time itself is not
  modelled, so a transform that gives up at its deadline is one whose outcome depends on
  \<open>deadline\<close>. The payload of a panic is never \<open>nil\<close>: since Go 1.21 \<open>panic(nil)\<close>
  panics with a \<open>*runtime.PanicNilError\<close>, so the test \<open>r != nil\<close> of line 147
  succeeds for every panic.
\<close>

datatype ('r, 'e, 'p) outcome = Returns 'r "('e, 'p) error option" | Panics 'p

record ctx_view =
  cancelled :: bool
  deadline :: "int option"

definition taskCtx :: "Options \<Rightarrow> bool \<Rightarrow> ctx_view" where
  "taskCtx opt d =
     \<lparr>cancelled = d,
      deadline = (if TaskTimeout opt > 0 then Some (TaskTimeout opt) else None)\<rparr>"

text \<open>
  Lines 142-156: \<open>res\<close> and \<open>err\<close> start as the zero value of \<open>R\<close> and \<open>nil\<close>; the
  deferred function recovers a panic, and either stores a \<open>PanicError\<close> in \<open>err\<close> or
  panics again with the same payload. \<open>Inl p\<close> is the panic that leaves the worker.
\<close>

definition invoke ::
  "Options \<Rightarrow> (ctx_view \<Rightarrow> 't \<Rightarrow> ('r, 'e, 'p) outcome) \<Rightarrow> 'r \<Rightarrow> ctx_view \<Rightarrow> 't
     \<Rightarrow> 'p + ('r, 'e, 'p) Result" where
  "invoke opt fn zero c v =
     (case fn c v of
        Returns r e \<Rightarrow> Inr \<lparr>Value = r, Err = e\<rparr>
      | Panics p \<Rightarrow>
          if PanicAsError opt
          then Inr \<lparr>Value = zero, Err = Some (Recovered (PanicError p))\<rparr>
          else Inl p)"

section \<open>Normalisation of the options\<close>

text \<open>Lines 38-43 of \<open>MapOrdered\<close>, in the order of the source.\<close>

definition normalize :: "Options \<Rightarrow> Options" where
  "normalize opt =
     (let opt1 = (if Workers opt \<le> 0 then opt\<lparr>Workers := 1\<rparr> else opt)
      in if MaxInFlight opt1 < Workers opt1
         then opt1\<lparr>MaxInFlight := Workers opt1\<rparr> else opt1)"

section \<open>The pipeline as a transition system\<close>

text \<open>
  Each goroutine of \<open>MapOrdered\<close> is a small state machine, named after the place
  where it waits.

  The submitter (lines 68-80) is either at the head of \<open>for val := range input\<close>, or
  in the \<open>select\<close> of lines 73-78 holding \<open>val\<close>, or has returned.
\<close>

datatype 't submitter = SubRange | SubSelect 't | SubDone

text \<open>
  A worker (lines 116-169) is in the \<open>select\<close> of lines 127-133, or holds a task it is
  about to run, or is in the \<open>select\<close> of lines 162-166 holding the result, or has
  returned.
\<close>

datatype ('t, 'r, 'e, 'p) worker =
  WSelect | WCall "'t indexedTask" | WSend "('r, 'e, 'p) indexedResult" | WDone

text \<open>
  The collector (lines 83-110) is at the head of \<open>for res := range resultChan\<close>, or
  at the lookup \<open>buffer[nextIndex]\<close> of line 92, or in the \<open>select\<close> of lines 94-104
  holding \<open>item\<close>, or has returned.
\<close>

datatype ('r, 'e, 'p) collector =
  ColRange | ColLookup | ColSelect "('r, 'e, 'p) Result" | ColDone

text \<open>
  The state of one call of \<open>MapOrdered\<close>. \<open>input\<close> holds the items the caller still
  delivers on the input channel, which the caller closes after the last one. A channel
  is the list of the values it buffers, oldest first; the channel \<open>output\<close> is the
  field \<open>outputChan\<close>. \<open>ctxDone\<close> says whether \<open>ctx.Done()\<close> is closed; \<open>index\<close>,
  \<open>buffer\<close>, \<open>nextIndex\<close> and \<open>successCount\<close> are the local variables of lines 71
  and 83-85 (\<open>successCount\<close> only counts up from 0, so it is a \<open>nat\<close>).
  \<open>outputCloses\<close> counts the
  executions of \<open>close(output)\<close>. \<open>emitted\<close> is a history variable: every Result the
  collector has sent on \<open>output\<close>, together with the key \<open>nextIndex\<close> under which it was
  taken from the reorder buffer. \<open>panicked\<close> holds the payload of a panic that left a
  worker goroutine, which ends the process.
\<close>

record ('t, 'r, 'e, 'p) state =
  ctxDone :: bool
  input :: "'t list"
  sub :: "'t submitter"
  index :: nat
  taskChan :: "'t indexedTask list"
  taskClosed :: bool
  workers :: "('t, 'r, 'e, 'p) worker list"
  resultChan :: "('r, 'e, 'p) indexedResult list"
  resultClosed :: bool
  col :: "('r, 'e, 'p) collector"
  buffer :: "nat \<rightharpoonup> ('r, 'e, 'p) Result"
  nextIndex :: nat
  successCount :: nat
  outputChan :: "('r, 'e, 'p) Result list"
  outputCloses :: nat
  emitted :: "('r, 'e, 'p) indexedResult list"
  panicked :: "'p option"

text \<open>The capacity of \<open>output\<close>, \<open>taskChan\<close> and \<open>resultChan\<close> (lines 45, 51, 52).\<close>

definition capacity :: "Options \<Rightarrow> nat" where
  "capacity opt = nat (MaxInFlight opt)"

text \<open>
  The Go runtime, which is not part of the repository, enters through \<open>make\<close>:
  \<open>make(chan E, n)\<close> panics with the runtime error \<open>makechan: size out of range\<close> when
  \<open>n\<close> elements of type \<open>E\<close> need more memory than the runtime allocates at once. The
  largest capacity it accepts for each of the three element types (\<open>Result[R]\<close>,
  \<open>indexedTask[T]\<close>, \<open>indexedResult[R]\<close>) and the value it panics with are parameters.
\<close>

record 'p runtime =
  maxOutput :: nat
  maxTask :: nat
  maxResult :: nat
  makechanPanic :: 'p

text \<open>
  The state in which every goroutine of the pipeline has been started (lines 47-85): the
  channels are empty, \<open>Workers\<close> workers wait for a task, the options are the normalised
  ones.
\<close>

definition start :: "Options \<Rightarrow> 't list \<Rightarrow> ('t, 'r, 'e, 'p) state" where
  "start opt xs =
     \<lparr>ctxDone = False, input = xs, sub = SubRange, index = 0,
      taskChan = [], taskClosed = False,
      workers = replicate (nat (Workers (normalize opt))) WSelect,
      resultChan = [], resultClosed = False,
      col = ColRange, buffer = Map.empty, nextIndex = 0, successCount = 0,
      outputChan = [], outputCloses = 0, emitted = [], panicked = None\<rparr>"

text \<open>
  What a call of \<open>MapOrdered\<close> leads to. The options are normalised (lines 38-43).
  \<open>make\<close> of line 45 runs in the caller: if it panics, \<open>MapOrdered\<close> panics and returns
  nothing. The \<open>make\<close>s of lines 51 and 52 run in the goroutine of line 47, after
  \<open>output\<close> has been handed to the caller: if one of them panics, the deferred
  \<open>close(output)\<close> runs and the panic, which nothing recovers, ends the process before
  any other goroutine exists. Otherwise the pipeline is started.
\<close>

datatype ('t, 'r, 'e, 'p) launch =
  PanicsInCaller 'p | PanicsInGoroutine 'p | Started "('t, 'r, 'e, 'p) state"

definition MapOrdered :: "'p runtime \<Rightarrow> Options \<Rightarrow> 't list \<Rightarrow> ('t, 'r, 'e, 'p) launch" where
  "MapOrdered rt opt xs =
     (let opt1 = normalize opt
      in if maxOutput rt < capacity opt1 then PanicsInCaller (makechanPanic rt)
         else if maxTask rt < capacity opt1 then PanicsInGoroutine (makechanPanic rt)
         else if maxResult rt < capacity opt1 then PanicsInGoroutine (makechanPanic rt)
         else Started (start opt xs))"

text \<open>
  The atomic steps. \<open>Cancel\<close> (the caller cancels \<open>ctx\<close>) and \<open>Consume\<close> (the caller
  receives from \<open>output\<close>) belong to the caller; the others are the steps of the
  goroutines. A \<open>select\<close> with several ready cases may take any of them, so each case is a
  step of its own.
\<close>

datatype event =
    Cancel | Consume
  | SubNext | SubSend | SubCancel
  | WTake nat | WCancel nat | WInvoke nat | WPush nat | WAbort nat
  | Closer
  | ColRecv | ColCheck | ColSend | ColCancel

text \<open>The steps of the submitter, lines 68-80; \<open>defer close(taskChan)\<close> runs at each return.\<close>

definition subNext :: "('t, 'r, 'e, 'p) state \<Rightarrow> ('t, 'r, 'e, 'p) state option" where
  "subNext s =
     (case sub s of
        SubRange \<Rightarrow>
          (case input s of
             [] \<Rightarrow> Some (s\<lparr>sub := SubDone, taskClosed := True\<rparr>)
           | v # vs \<Rightarrow> Some (s\<lparr>input := vs, sub := SubSelect v\<rparr>))
      | _ \<Rightarrow> None)"

definition subSend :: "Options \<Rightarrow> ('t, 'r, 'e, 'p) state \<Rightarrow> ('t, 'r, 'e, 'p) state option" where
  "subSend opt s =
     (case sub s of
        SubSelect v \<Rightarrow>
          if length (taskChan s) < capacity opt
          then Some (s\<lparr>taskChan := taskChan s @ [\<lparr>t_index = index s, t_value = v\<rparr>],
                       index := index s + 1, sub := SubRange\<rparr>)
          else None
      | _ \<Rightarrow> None)"

definition subCancel :: "('t, 'r, 'e, 'p) state \<Rightarrow> ('t, 'r, 'e, 'p) state option" where
  "subCancel s =
     (case sub s of
        SubSelect v \<Rightarrow>
          if ctxDone s then Some (s\<lparr>sub := SubDone, taskClosed := True\<rparr>) else None
      | _ \<Rightarrow> None)"

text \<open>The steps of worker \<open>w\<close>, lines 126-168.\<close>

definition wTake :: "nat \<Rightarrow> ('t, 'r, 'e, 'p) state \<Rightarrow> ('t, 'r, 'e, 'p) state option" where
  "wTake w s =
     (if w < length (workers s) \<and> workers s ! w = WSelect
      then (case taskChan s of
              t # ts \<Rightarrow> Some (s\<lparr>taskChan := ts, workers := (workers s)[w := WCall t]\<rparr>)
            | [] \<Rightarrow> if taskClosed s
                    then Some (s\<lparr>workers := (workers s)[w := WDone]\<rparr>) else None)
      else None)"

definition wCancel :: "nat \<Rightarrow> ('t, 'r, 'e, 'p) state \<Rightarrow> ('t, 'r, 'e, 'p) state option" where
  "wCancel w s =
     (if w < length (workers s) \<and> workers s ! w = WSelect \<and> ctxDone s
      then Some (s\<lparr>workers := (workers s)[w := WDone]\<rparr>)
      else None)"

definition wInvoke ::
  "Options \<Rightarrow> (ctx_view \<Rightarrow> 't \<Rightarrow> ('r, 'e, 'p) outcome) \<Rightarrow> 'r \<Rightarrow> nat
     \<Rightarrow> ('t, 'r, 'e, 'p) state \<Rightarrow> ('t, 'r, 'e, 'p) state option" where
  "wInvoke opt fn zero w s =
     (if w < length (workers s)
      then (case workers s ! w of
              WCall t \<Rightarrow>
                (case invoke opt fn zero (taskCtx opt (ctxDone s)) (t_value t) of
                   Inl p \<Rightarrow> Some (s\<lparr>panicked := Some p\<rparr>)
                 | Inr r \<Rightarrow>
                     Some (s\<lparr>workers :=
                       (workers s)[w := WSend \<lparr>r_index = t_index t, r_res = r\<rparr>]\<rparr>))
            | _ \<Rightarrow> None)
      else None)"

definition wPush ::
  "Options \<Rightarrow> nat \<Rightarrow> ('t, 'r, 'e, 'p) state \<Rightarrow> ('t, 'r, 'e, 'p) state option" where
  "wPush opt w s =
     (if w < length (workers s)
      then (case workers s ! w of
              WSend ir \<Rightarrow>
                if length (resultChan s) < capacity opt
                then Some (s\<lparr>resultChan := resultChan s @ [ir],
                             workers := (workers s)[w := WSelect]\<rparr>)
                else None
            | _ \<Rightarrow> None)
      else None)"

definition wAbort :: "nat \<Rightarrow> ('t, 'r, 'e, 'p) state \<Rightarrow> ('t, 'r, 'e, 'p) state option" where
  "wAbort w s =
     (if w < length (workers s)
      then (case workers s ! w of
              WSend ir \<Rightarrow>
                if ctxDone s then Some (s\<lparr>workers := (workers s)[w := WDone]\<rparr>) else None
            | _ \<Rightarrow> None)
      else None)"

text \<open>Lines 62-65: once every worker has called \<open>wg.Done()\<close>, \<open>resultChan\<close> is closed.\<close>

definition closer :: "('t, 'r, 'e, 'p) state \<Rightarrow> ('t, 'r, 'e, 'p) state option" where
  "closer s =
     (if \<not> resultClosed s \<and> list_all (\<lambda>w. w = WDone) (workers s)
      then Some (s\<lparr>resultClosed := True\<rparr>)
      else None)"

text \<open>
  The steps of the collector, lines 83-110; \<open>defer close(output)\<close> (line 48) runs at
  each return.
\<close>

definition colRecv :: "('t, 'r, 'e, 'p) state \<Rightarrow> ('t, 'r, 'e, 'p) state option" where
  "colRecv s =
     (case col s of
        ColRange \<Rightarrow>
          (case resultChan s of
             ir # rs \<Rightarrow>
               Some (s\<lparr>resultChan := rs,
                       buffer := (buffer s)(r_index ir \<mapsto> r_res ir),
                       col := ColLookup\<rparr>)
           | [] \<Rightarrow>
               if resultClosed s
               then Some (s\<lparr>col := ColDone, outputCloses := outputCloses s + 1\<rparr>)
               else None)
      | _ \<Rightarrow> None)"

definition colCheck :: "('t, 'r, 'e, 'p) state \<Rightarrow> ('t, 'r, 'e, 'p) state option" where
  "colCheck s =
     (case col s of
        ColLookup \<Rightarrow>
          (case buffer s (nextIndex s) of
             Some item \<Rightarrow>
               Some (s\<lparr>buffer := (buffer s)(nextIndex s := None), col := ColSelect item\<rparr>)
           | None \<Rightarrow> Some (s\<lparr>col := ColRange\<rparr>))
      | _ \<Rightarrow> None)"

definition colSend ::
  "Options \<Rightarrow> ('t, 'r, 'e, 'p) state \<Rightarrow> ('t, 'r, 'e, 'p) state option" where
  "colSend opt s =
     (case col s of
        ColSelect item \<Rightarrow>
          if length (outputChan s) < capacity opt
          then (let s1 = s\<lparr>outputChan := outputChan s @ [item],
                           emitted := emitted s @ [\<lparr>r_index = nextIndex s, r_res = item\<rparr>]\<rparr>
                in if Err item = None
                   then (let s2 = s1\<lparr>successCount := successCount s1 + 1\<rparr>
                         in if EarlyStopN opt > 0 \<and> int (successCount s2) \<ge> EarlyStopN opt
                            then Some (s2\<lparr>col := ColDone, outputCloses := outputCloses s2 + 1\<rparr>)
                            else Some (s2\<lparr>nextIndex := nextIndex s2 + 1, col := ColLookup\<rparr>))
                   else Some (s1\<lparr>nextIndex := nextIndex s1 + 1, col := ColLookup\<rparr>))
          else None
      | _ \<Rightarrow> None)"

definition colCancel :: "('t, 'r, 'e, 'p) state \<Rightarrow> ('t, 'r, 'e, 'p) state option" where
  "colCancel s =
     (case col s of
        ColSelect item \<Rightarrow>
          if ctxDone s
          then Some (s\<lparr>col := ColDone, outputCloses := outputCloses s + 1\<rparr>)
          else None
      | _ \<Rightarrow> None)"

text \<open>The caller: cancelling the context, and receiving the oldest Result of \<open>output\<close>.\<close>

definition cancel :: "('t, 'r, 'e, 'p) state \<Rightarrow> ('t, 'r, 'e, 'p) state option" where
  "cancel s = (if ctxDone s then None else Some (s\<lparr>ctxDone := True\<rparr>))"

definition consume :: "('t, 'r, 'e, 'p) state \<Rightarrow> ('t, 'r, 'e, 'p) state option" where
  "consume s = (case outputChan s of [] \<Rightarrow> None | r # rs \<Rightarrow> Some (s\<lparr>outputChan := rs\<rparr>))"

fun fire ::
  "Options \<Rightarrow> (ctx_view \<Rightarrow> 't \<Rightarrow> ('r, 'e, 'p) outcome) \<Rightarrow> 'r \<Rightarrow> event
     \<Rightarrow> ('t, 'r, 'e, 'p) state \<Rightarrow> ('t, 'r, 'e, 'p) state option" where
  "fire opt fn zero Cancel s = cancel s"
| "fire opt fn zero Consume s = consume s"
| "fire opt fn zero SubNext s = subNext s"
| "fire opt fn zero SubSend s = subSend opt s"
| "fire opt fn zero SubCancel s = subCancel s"
| "fire opt fn zero (WTake w) s = wTake w s"
| "fire opt fn zero (WCancel w) s = wCancel w s"
| "fire opt fn zero (WInvoke w) s = wInvoke opt fn zero w s"
| "fire opt fn zero (WPush w) s = wPush opt w s"
| "fire opt fn zero (WAbort w) s = wAbort w s"
| "fire opt fn zero Closer s = closer s"
| "fire opt fn zero ColRecv s = colRecv s"
| "fire opt fn zero ColCheck s = colCheck s"
| "fire opt fn zero ColSend s = colSend opt s"
| "fire opt fn zero ColCancel s = colCancel s"

text \<open>
  One step of the whole system. A panic that left a worker has ended the process: no
  goroutine takes another step.
\<close>

definition step ::
  "Options \<Rightarrow> (ctx_view \<Rightarrow> 't \<Rightarrow> ('r, 'e, 'p) outcome) \<Rightarrow> 'r \<Rightarrow> event
     \<Rightarrow> ('t, 'r, 'e, 'p) state \<Rightarrow> ('t, 'r, 'e, 'p) state option" where
  "step opt fn zero a s = (if panicked s = None then fire opt fn zero a s else None)"

text \<open>A schedule is a list of events; \<open>exec\<close> runs it, and fails where an event is not enabled.\<close>

fun exec ::
  "Options \<Rightarrow> (ctx_view \<Rightarrow> 't \<Rightarrow> ('r, 'e, 'p) outcome) \<Rightarrow> 'r \<Rightarrow> event list
     \<Rightarrow> ('t, 'r, 'e, 'p) state \<Rightarrow> ('t, 'r, 'e, 'p) state option" where
  "exec opt fn zero [] s = Some s"
| "exec opt fn zero (a # as) s =
     (case step opt fn zero a s of None \<Rightarrow> None | Some s' \<Rightarrow> exec opt fn zero as s')"

text \<open>
  The states a call \<open>MapOrdered(ctx, input, fn, opt)\<close> can reach when the runtime is
  \<open>rt\<close> and the caller delivers the items \<open>xs\<close>: the call has to start the pipeline.
  The goroutines work with the normalised options.
\<close>

inductive reach ::
  "'p runtime \<Rightarrow> Options \<Rightarrow> (ctx_view \<Rightarrow> 't \<Rightarrow> ('r, 'e, 'p) outcome) \<Rightarrow> 'r \<Rightarrow> 't list
     \<Rightarrow> ('t, 'r, 'e, 'p) state \<Rightarrow> bool"
  for rt opt fn zero xs where
  reach_init: "MapOrdered rt opt xs = Started s \<Longrightarrow> reach rt opt fn zero xs s"
| reach_step: "reach rt opt fn zero xs s \<Longrightarrow> step (normalize opt) fn zero a s = Some s'
     \<Longrightarrow> reach rt opt fn zero xs s'"

section \<open>What the claims speak about\<close>

text \<open>
  The events of the goroutines (without \<open>Cancel\<close>, which is the caller's) for a pool of
  \<open>n\<close> workers, and those of them that are enabled in a state. A state where this list
  is empty can only be left by a cancellation.
\<close>

definition events :: "nat \<Rightarrow> event list" where
  "events n =
     [Consume, SubNext, SubSend, SubCancel, Closer, ColRecv, ColCheck, ColSend, ColCancel]
     @ concat (map (\<lambda>w. [WTake w, WCancel w, WInvoke w, WPush w, WAbort w]) [0..<n])"

definition enabled ::
  "Options \<Rightarrow> (ctx_view \<Rightarrow> 't \<Rightarrow> ('r, 'e, 'p) outcome) \<Rightarrow> 'r
     \<Rightarrow> ('t, 'r, 'e, 'p) state \<Rightarrow> event list" where
  "enabled opt fn zero s =
     filter (\<lambda>a. step opt fn zero a s \<noteq> None) (events (length (workers s)))"

text \<open>Line 98: a Result counts as a success when its \<open>Err\<close> is \<open>nil\<close>.\<close>

definition successes :: "('r, 'e, 'p) indexedResult list \<Rightarrow> nat" where
  "successes es = length (filter (\<lambda>e. Err (r_res e) = None) es)"

text \<open>The test of line 100 on the current value of \<open>successCount\<close>.\<close>

definition quota :: "Options \<Rightarrow> ('t, 'r, 'e, 'p) state \<Rightarrow> bool" where
  "quota opt s = (EarlyStopN opt > 0 \<and> int (successCount s) \<ge> EarlyStopN opt)"

text \<open>
  The number of input items on which the transform, called with a context that is not
  cancelled, returns without an error: the successes that are available.
\<close>

definition available ::
  "Options \<Rightarrow> (ctx_view \<Rightarrow> 't \<Rightarrow> ('r, 'e, 'p) outcome) \<Rightarrow> 'r \<Rightarrow> 't list \<Rightarrow> nat" where
  "available opt fn zero xs =
     length (filter (\<lambda>v. case invoke opt fn zero (taskCtx opt False) v of
                             Inl p \<Rightarrow> False | Inr r \<Rightarrow> Err r = None) xs)"

text \<open>
  The reference for sequential equivalence, after the words of the specification: the
  transform is applied to each input item in arrival order, one call after the other, each
  call wrapped as a worker wraps it; a panic that is not converted ends the computation.
\<close>

fun synchronous ::
  "Options \<Rightarrow> (ctx_view \<Rightarrow> 't \<Rightarrow> ('r, 'e, 'p) outcome) \<Rightarrow> 'r \<Rightarrow> ctx_view \<Rightarrow> 't list
     \<Rightarrow> 'p + ('r, 'e, 'p) Result list" where
  "synchronous opt fn zero c [] = Inr []"
| "synchronous opt fn zero c (v # vs) =
     (case invoke opt fn zero c v of
        Inl p \<Rightarrow> Inl p
      | Inr r \<Rightarrow>
          (case synchronous opt fn zero c vs of
             Inl p \<Rightarrow> Inl p
           | Inr rs \<Rightarrow> Inr (r # rs)))"

section \<open>Invariants of the pipeline\<close>

text \<open>
  A task is well tagged when its index is a position of the input \<open>xs\<close> and its value is
  the item at that position. A Result \<open>r\<close> is well tagged with \<open>i\<close> when a worker's
  invocation on item \<open>i\<close> produces \<open>r\<close>; the context of that invocation was cancelled
  only if \<open>D\<close> holds.
\<close>

definition good_task :: "'t list \<Rightarrow> 't indexedTask \<Rightarrow> bool" where
  "good_task xs t = (t_index t < length xs \<and> t_value t = xs ! t_index t)"

definition good_res ::
  "Options \<Rightarrow> (ctx_view \<Rightarrow> 't \<Rightarrow> ('r, 'e, 'p) outcome) \<Rightarrow> 'r \<Rightarrow> 't list \<Rightarrow> bool
     \<Rightarrow> nat \<Rightarrow> ('r, 'e, 'p) Result \<Rightarrow> bool" where
  "good_res opt fn zero xs D i r =
     (i < length xs \<and>
      (\<exists>d. (d \<longrightarrow> D) \<and> invoke opt fn zero (taskCtx opt d) (xs ! i) = Inr r))"

text \<open>The submitter numbers the items in arrival order.\<close>

definition inv_sub :: "'t list \<Rightarrow> ('t, 'r, 'e, 'p) state \<Rightarrow> bool" where
  "inv_sub xs s =
     (case sub s of
        SubSelect v \<Rightarrow>
          index s < length xs \<and> v = xs ! index s \<and> input s = drop (Suc (index s)) xs
      | SubRange \<Rightarrow> index s \<le> length xs \<and> input s = drop (index s) xs
      | SubDone \<Rightarrow>
          index s \<le> length xs \<and> (\<not> ctxDone s \<longrightarrow> input s = [] \<and> index s = length xs))"

definition inv_tasks :: "'t list \<Rightarrow> ('t, 'r, 'e, 'p) state \<Rightarrow> bool" where
  "inv_tasks xs s =
     ((\<forall>t \<in> set (taskChan s). good_task xs t) \<and>
      (\<forall>w < length (workers s). \<forall>t. workers s ! w = WCall t \<longrightarrow> good_task xs t))"

definition inv_results ::
  "Options \<Rightarrow> (ctx_view \<Rightarrow> 't \<Rightarrow> ('r, 'e, 'p) outcome) \<Rightarrow> 'r \<Rightarrow> 't list
     \<Rightarrow> ('t, 'r, 'e, 'p) state \<Rightarrow> bool" where
  "inv_results opt fn zero xs s =
     ((\<forall>w < length (workers s). \<forall>ir. workers s ! w = WSend ir \<longrightarrow>
          good_res opt fn zero xs (ctxDone s) (r_index ir) (r_res ir)) \<and>
      (\<forall>ir \<in> set (resultChan s). good_res opt fn zero xs (ctxDone s) (r_index ir) (r_res ir)) \<and>
      (\<forall>k r. buffer s k = Some r \<longrightarrow> good_res opt fn zero xs (ctxDone s) k r) \<and>
      (\<forall>item. col s = ColSelect item \<longrightarrow>
          good_res opt fn zero xs (ctxDone s) (nextIndex s) item) \<and>
      (\<forall>e \<in> set (emitted s). good_res opt fn zero xs (ctxDone s) (r_index e) (r_res e)))"

text \<open>The collector's cursor, the closing of \<open>output\<close>, and the success counter.\<close>

definition inv_cursor :: "('t, 'r, 'e, 'p) state \<Rightarrow> bool" where
  "inv_cursor s =
     (map r_index (emitted s) = [0..<length (emitted s)] \<and>
      (col s \<noteq> ColDone \<longrightarrow> nextIndex s = length (emitted s)))"

definition inv_out :: "('t, 'r, 'e, 'p) state \<Rightarrow> bool" where
  "inv_out s =
     (\<exists>n \<le> length (emitted s). outputChan s = map r_res (drop n (emitted s)))"

definition inv_closes :: "('t, 'r, 'e, 'p) state \<Rightarrow> bool" where
  "inv_closes s = (outputCloses s = (if col s = ColDone then 1 else 0))"

definition inv_count :: "Options \<Rightarrow> ('t, 'r, 'e, 'p) state \<Rightarrow> bool" where
  "inv_count opt s =
     (successCount s = successes (emitted s) \<and>
      (EarlyStopN opt > 0 \<longrightarrow>
         (col s \<noteq> ColDone \<longrightarrow> int (successCount s) < EarlyStopN opt) \<and>
         int (successCount s) \<le> EarlyStopN opt \<and>
         (int (successCount s) = EarlyStopN opt \<longrightarrow>
            emitted s \<noteq> [] \<and> Err (r_res (last (emitted s))) = None) \<and>
         (\<forall>j < length (emitted s). int (successes (take j (emitted s))) < EarlyStopN opt)))"

definition inv_nopanic :: "Options \<Rightarrow> ('t, 'r, 'e, 'p) state \<Rightarrow> bool" where
  "inv_nopanic opt s = (PanicAsError opt \<longrightarrow> panicked s = None)"

text \<open>The order in which the goroutines shut down.\<close>

definition inv_shut :: "('t, 'r, 'e, 'p) state \<Rightarrow> bool" where
  "inv_shut s =
     ((taskClosed s \<longleftrightarrow> sub s = SubDone) \<and>
      (resultClosed s \<longrightarrow> (\<forall>w < length (workers s). workers s ! w = WDone)))"

definition inv_quiet :: "Options \<Rightarrow> ('t, 'r, 'e, 'p) state \<Rightarrow> bool" where
  "inv_quiet opt s =
     ((col s = ColRange \<longrightarrow> buffer s (nextIndex s) = None) \<and>
      (\<not> ctxDone s \<longrightarrow>
         (\<forall>w < length (workers s). workers s ! w = WDone \<longrightarrow> taskChan s = [] \<and> taskClosed s) \<and>
         (col s = ColDone \<and> \<not> quota opt s \<longrightarrow>
            resultClosed s \<and> resultChan s = [] \<and> buffer s (nextIndex s) = None \<and>
            nextIndex s = length (emitted s))))"

text \<open>
  Without cancellation nothing is lost: every index the submitter has handed out is
  either emitted or still on its way to the collector.
\<close>

fun held :: "('t, 'r, 'e, 'p) worker \<Rightarrow> nat option" where
  "held (WCall t) = Some (t_index t)"
| "held (WSend ir) = Some (r_index ir)"
| "held WSelect = None"
| "held WDone = None"

definition inv_conserve :: "('t, 'r, 'e, 'p) state \<Rightarrow> bool" where
  "inv_conserve s =
     (\<not> ctxDone s \<longrightarrow>
        (\<forall>i < index s.
           i < length (emitted s) \<or> i \<in> t_index ` set (taskChan s) \<or>
           (\<exists>w < length (workers s). held (workers s ! w) = Some i) \<or>
           i \<in> r_index ` set (resultChan s) \<or> buffer s i \<noteq> None \<or>
           (\<exists>item. col s = ColSelect item \<and> nextIndex s = i)))"

definition inv ::
  "Options \<Rightarrow> (ctx_view \<Rightarrow> 't \<Rightarrow> ('r, 'e, 'p) outcome) \<Rightarrow> 'r \<Rightarrow> 't list
     \<Rightarrow> ('t, 'r, 'e, 'p) state \<Rightarrow> bool" where
  "inv opt fn zero xs s =
     (inv_sub xs s \<and> inv_tasks xs s \<and> inv_results opt fn zero xs s \<and> inv_cursor s \<and>
      inv_out s \<and> inv_closes s \<and> inv_count opt s \<and> inv_nopanic opt s \<and> inv_shut s \<and>
      inv_quiet opt s \<and> inv_conserve s \<and> finite (dom (buffer s)) \<and>
      length (workers s) = nat (Workers opt))"

section \<open>A bound on the length of every run\<close>

text \<open>
  Every step moves an item one stage further through the pipeline, or ends a goroutine.
  The weights below make each step decrease the sum.
\<close>

fun weight_sub :: "'t submitter \<Rightarrow> nat" where
  "weight_sub SubRange = 1"
| "weight_sub (SubSelect v) = 20"
| "weight_sub SubDone = 0"

fun weight_worker :: "('t, 'r, 'e, 'p) worker \<Rightarrow> nat" where
  "weight_worker WSelect = 1"
| "weight_worker (WCall t) = 18"
| "weight_worker (WSend ir) = 17"
| "weight_worker WDone = 0"

fun weight_col :: "('r, 'e, 'p) collector \<Rightarrow> nat" where
  "weight_col ColRange = 1"
| "weight_col ColLookup = 2"
| "weight_col (ColSelect item) = 11"
| "weight_col ColDone = 0"

definition potential :: "('t, 'r, 'e, 'p) state \<Rightarrow> nat" where
  "potential s =
     (if ctxDone s then 0 else 1) + (if panicked s = None then 1 else 0)
     + 20 * length (input s) + weight_sub (sub s) + 18 * length (taskChan s)
     + sum_list (map weight_worker (workers s)) + 15 * length (resultChan s)
     + (if resultClosed s then 0 else 1) + 13 * card (dom (buffer s))
     + weight_col (col s) + 5 * length (outputChan s)"

section \<open>Concrete runs\<close>

text \<open>
  A transform in the style of the repository's tests (\<open>x * 2\<close>), which moreover panics on
  0 and returns an error on negative numbers.
\<close>

definition sample_fn :: "ctx_view \<Rightarrow> int \<Rightarrow> (int, string, string) outcome" where
  "sample_fn c x =
     (if x = 0 then Panics ''boom''
      else if x < 0 then Returns 0 (Some (Failure ''negative''))
      else Returns (x * 2) None)"

text \<open>
  A runtime with the limits of a 64-bit Linux (\<open>make\<close> allocates at most \<open>2^48 - 96\<close>
  bytes) for items and values of type \<open>int\<close>: a \<open>Result[int]\<close> takes 24 bytes, an
  \<open>indexedTask[int]\<close> 16 and an \<open>indexedResult[int]\<close> 32. The payloads of panics are
  strings here.
\<close>

definition sample_rt :: "string runtime" where
  "sample_rt =
     \<lparr>maxOutput = 11728124029606, maxTask = 17592186044410, maxResult = 8796093022205,
      makechanPanic = ''makechan: size out of range''\<rparr>"

text \<open>
  Options with \<open>MaxInFlight < Workers\<close> and \<open>2^62\<close> workers, and options whose capacity
  \<open>10^13\<close> fits a channel of \<open>Result[int]\<close> but not one of \<open>indexedResult[int]\<close>.
\<close>

definition opts_huge :: Options where
  "opts_huge =
     \<lparr>Workers = 4611686018427387904, MaxInFlight = 0, EarlyStopN = 0, PanicAsError = False,
      TaskTimeout = 0\<rparr>"

definition opts_wide :: Options where
  "opts_wide =
     \<lparr>Workers = 1, MaxInFlight = 10000000000000, EarlyStopN = 0, PanicAsError = False,
      TaskTimeout = 0\<rparr>"

definition opts_pool :: Options where
  "opts_pool = \<lparr>Workers = 2, MaxInFlight = 0, EarlyStopN = 0, PanicAsError = True, TaskTimeout = 0\<rparr>"

definition opts_single :: Options where
  "opts_single = \<lparr>Workers = 1, MaxInFlight = 1, EarlyStopN = 0, PanicAsError = False, TaskTimeout = 0\<rparr>"

definition opts_stop :: Options where
  "opts_stop = \<lparr>Workers = 1, MaxInFlight = 1, EarlyStopN = 1, PanicAsError = False, TaskTimeout = 0\<rparr>"

text \<open>
  Two workers on the input \<open>[1, 0, -1]\<close>: worker 1 finishes item 1 before worker 0
  finishes item 0, so the collector has to hold Result 1 back.
\<close>

definition sched_pool :: "event list" where
  "sched_pool =
     [SubNext, SubSend, SubNext, SubSend, WTake 0, WTake (Suc 0),
      WInvoke (Suc 0), WPush (Suc 0), ColRecv, ColCheck,
      WInvoke 0, WPush 0, ColRecv, ColCheck, ColSend, ColCheck, ColSend,
      Consume, Consume, ColCheck,
      SubNext, SubSend, SubNext, WTake 0, WTake (Suc 0), WInvoke 0, WPush 0, WTake 0, Closer,
      ColRecv, ColCheck, ColSend, ColCheck, ColRecv, Consume]"

text \<open>One worker, all channels of capacity 1, on the input \<open>[1, -2]\<close>.\<close>

definition sched_single :: "event list" where
  "sched_single =
     [SubNext, SubSend, WTake 0, SubNext, SubSend, WInvoke 0, WPush 0,
      ColRecv, ColCheck, ColSend, ColCheck,
      WTake 0, WInvoke 0, WPush 0, SubNext, WTake 0, Closer,
      Consume, ColRecv, ColCheck, ColSend, ColCheck, ColRecv, Consume]"

text \<open>The same schedule stops early on the input \<open>[-1, 1]\<close> with \<open>EarlyStopN = 1\<close>.\<close>

definition sched_stop :: "event list" where
  "sched_stop =
     [SubNext, SubSend, WTake 0, SubNext, SubSend, WInvoke 0, WPush 0,
      ColRecv, ColCheck, ColSend, ColCheck,
      WTake 0, WInvoke 0, WPush 0, SubNext, WTake 0, Closer,
      Consume, ColRecv, ColCheck, ColSend, Consume]"

text \<open>
  Early stop after the first of five items, with one worker and capacity 1: the worker
  and the submitter go on until the queues nobody reads any more are full.
\<close>

definition sched_strand :: "event list" where
  "sched_strand =
     [SubNext, SubSend, WTake 0, WInvoke 0, WPush 0, ColRecv, ColCheck, ColSend, Consume,
      SubNext, SubSend, WTake 0, WInvoke 0, WPush 0,
      SubNext, SubSend, WTake 0, WInvoke 0,
      SubNext, SubSend, SubNext]"

text \<open>One item has reached the reorder buffer and the collector is about to look it up.\<close>

definition sched_lookup :: "event list" where
  "sched_lookup = [SubNext, SubSend, WTake 0, WInvoke 0, WPush 0, ColRecv]"

text \<open>
  The state a schedule leads to from the start (the start itself if the schedule cannot
  run), and what an observer sees of a state.
\<close>

definition final ::
  "Options \<Rightarrow> (ctx_view \<Rightarrow> 't \<Rightarrow> ('r, 'e, 'p) outcome) \<Rightarrow> 'r \<Rightarrow> event list \<Rightarrow> 't list
     \<Rightarrow> ('t, 'r, 'e, 'p) state" where
  "final opt fn zero evs xs =
     (case exec (normalize opt) fn zero evs (start opt xs) of
        Some s \<Rightarrow> s
      | None \<Rightarrow> start opt xs)"

definition observe ::
  "('t, 'r, 'e, 'p) state
     \<Rightarrow> ('r, 'e, 'p) indexedResult list \<times> ('r, 'e, 'p) collector \<times> nat \<times> bool \<times> 'p option" where
  "observe s = (emitted s, col s, outputCloses s, ctxDone s, panicked s)"

definition end_pool :: "(int, int, string, string) state" where
  "end_pool = final opts_pool sample_fn 0 sched_pool [1, 0, -1]"

definition end_single :: "(int, int, string, string) state" where
  "end_single = final opts_single sample_fn 0 sched_single [1, -2]"

definition end_stop :: "(int, int, string, string) state" where
  "end_stop = final opts_stop sample_fn 0 sched_stop [-1, 1]"

definition end_strand :: "(int, int, string, string) state" where
  "end_strand = final opts_stop sample_fn 0 sched_strand [1, 2, 3, 4, 5]"

definition at_lookup :: "(int, int, string, string) state" where
  "at_lookup = final opts_single sample_fn 0 sched_lookup [1]"

section \<open>Case analysis of a step\<close>

text \<open>
  Every step is one of the following cases, each with its guard and its effect on the
  state.
\<close>

lemma step_cases [consumes 1, case_names Cancel Consume SubEnd SubRecv SubSend SubCancel
    WTake WExit WCancel WPanic WInvoke WPush WAbort Closer
    ColRecv ColClosed ColHit ColMiss ColEmitErr ColEmit ColStop ColCancel]:
  assumes "step opt fn zero a s = Some s'"
  obtains
    (Cancel) "a = Cancel" "panicked s = None" "\<not> ctxDone s" "s' = s\<lparr>ctxDone := True\<rparr>"
  | (Consume) r rs where "a = Consume" "panicked s = None" "outputChan s = r # rs"
      "s' = s\<lparr>outputChan := rs\<rparr>"
  | (SubEnd) "a = SubNext" "panicked s = None" "sub s = SubRange" "input s = []"
      "s' = s\<lparr>sub := SubDone, taskClosed := True\<rparr>"
  | (SubRecv) v vs where "a = SubNext" "panicked s = None" "sub s = SubRange" "input s = v # vs"
      "s' = s\<lparr>input := vs, sub := SubSelect v\<rparr>"
  | (SubSend) v where "a = SubSend" "panicked s = None" "sub s = SubSelect v"
      "length (taskChan s) < capacity opt"
      "s' = s\<lparr>taskChan := taskChan s @ [\<lparr>t_index = index s, t_value = v\<rparr>],
               index := index s + 1, sub := SubRange\<rparr>"
  | (SubCancel) v where "a = SubCancel" "panicked s = None" "sub s = SubSelect v" "ctxDone s"
      "s' = s\<lparr>sub := SubDone, taskClosed := True\<rparr>"
  | (WTake) w t ts where "a = WTake w" "panicked s = None" "w < length (workers s)"
      "workers s ! w = WSelect" "taskChan s = t # ts"
      "s' = s\<lparr>taskChan := ts, workers := (workers s)[w := WCall t]\<rparr>"
  | (WExit) w where "a = WTake w" "panicked s = None" "w < length (workers s)"
      "workers s ! w = WSelect" "taskChan s = []" "taskClosed s"
      "s' = s\<lparr>workers := (workers s)[w := WDone]\<rparr>"
  | (WCancel) w where "a = WCancel w" "panicked s = None" "w < length (workers s)"
      "workers s ! w = WSelect" "ctxDone s"
      "s' = s\<lparr>workers := (workers s)[w := WDone]\<rparr>"
  | (WPanic) w t p where "a = WInvoke w" "panicked s = None" "w < length (workers s)"
      "workers s ! w = WCall t"
      "invoke opt fn zero (taskCtx opt (ctxDone s)) (t_value t) = Inl p"
      "s' = s\<lparr>panicked := Some p\<rparr>"
  | (WInvoke) w t r where "a = WInvoke w" "panicked s = None" "w < length (workers s)"
      "workers s ! w = WCall t"
      "invoke opt fn zero (taskCtx opt (ctxDone s)) (t_value t) = Inr r"
      "s' = s\<lparr>workers := (workers s)[w := WSend \<lparr>r_index = t_index t, r_res = r\<rparr>]\<rparr>"
  | (WPush) w ir where "a = WPush w" "panicked s = None" "w < length (workers s)"
      "workers s ! w = WSend ir" "length (resultChan s) < capacity opt"
      "s' = s\<lparr>resultChan := resultChan s @ [ir], workers := (workers s)[w := WSelect]\<rparr>"
  | (WAbort) w ir where "a = WAbort w" "panicked s = None" "w < length (workers s)"
      "workers s ! w = WSend ir" "ctxDone s"
      "s' = s\<lparr>workers := (workers s)[w := WDone]\<rparr>"
  | (Closer) "a = Closer" "panicked s = None" "\<not> resultClosed s"
      "list_all (\<lambda>w. w = WDone) (workers s)" "s' = s\<lparr>resultClosed := True\<rparr>"
  | (ColRecv) ir rs where "a = ColRecv" "panicked s = None" "col s = ColRange"
      "resultChan s = ir # rs"
      "s' = s\<lparr>resultChan := rs, buffer := (buffer s)(r_index ir \<mapsto> r_res ir),
               col := ColLookup\<rparr>"
  | (ColClosed) "a = ColRecv" "panicked s = None" "col s = ColRange" "resultChan s = []"
      "resultClosed s" "s' = s\<lparr>col := ColDone, outputCloses := outputCloses s + 1\<rparr>"
  | (ColHit) item where "a = ColCheck" "panicked s = None" "col s = ColLookup"
      "buffer s (nextIndex s) = Some item"
      "s' = s\<lparr>buffer := (buffer s)(nextIndex s := None), col := ColSelect item\<rparr>"
  | (ColMiss) "a = ColCheck" "panicked s = None" "col s = ColLookup"
      "buffer s (nextIndex s) = None" "s' = s\<lparr>col := ColRange\<rparr>"
  | (ColEmitErr) item where "a = ColSend" "panicked s = None" "col s = ColSelect item"
      "length (outputChan s) < capacity opt" "Err item \<noteq> None"
      "s' = s\<lparr>outputChan := outputChan s @ [item],
               emitted := emitted s @ [\<lparr>r_index = nextIndex s, r_res = item\<rparr>],
               nextIndex := nextIndex s + 1, col := ColLookup\<rparr>"
  | (ColEmit) item where "a = ColSend" "panicked s = None" "col s = ColSelect item"
      "length (outputChan s) < capacity opt" "Err item = None"
      "\<not> (EarlyStopN opt > 0 \<and> int (successCount s + 1) \<ge> EarlyStopN opt)"
      "s' = s\<lparr>outputChan := outputChan s @ [item],
               emitted := emitted s @ [\<lparr>r_index = nextIndex s, r_res = item\<rparr>],
               successCount := successCount s + 1,
               nextIndex := nextIndex s + 1, col := ColLookup\<rparr>"
  | (ColStop) item where "a = ColSend" "panicked s = None" "col s = ColSelect item"
      "length (outputChan s) < capacity opt" "Err item = None"
      "EarlyStopN opt > 0" "int (successCount s + 1) \<ge> EarlyStopN opt"
      "s' = s\<lparr>outputChan := outputChan s @ [item],
               emitted := emitted s @ [\<lparr>r_index = nextIndex s, r_res = item\<rparr>],
               successCount := successCount s + 1,
               col := ColDone, outputCloses := outputCloses s + 1\<rparr>"
  | (ColCancel) item where "a = ColCancel" "panicked s = None" "col s = ColSelect item"
      "ctxDone s" "s' = s\<lparr>col := ColDone, outputCloses := outputCloses s + 1\<rparr>"
proof -
  from assms have np: "panicked s = None" and f: "fire opt fn zero a s = Some s'"
    by (auto simp: step_def split: if_splits)
  show ?thesis
  proof (cases a)
    case Cancel
    with f np that(1) show ?thesis by (auto simp: cancel_def split: if_splits)
  next
    case Consume
    with f np that(2) show ?thesis by (auto simp: consume_def split: list.splits)
  next
    case SubNext
    with f np that(3,4) show ?thesis
      by (auto simp: subNext_def split: submitter.splits list.splits)
  next
    case SubSend
    with f np that(5) show ?thesis
      by (auto simp: subSend_def split: submitter.splits if_splits)
  next
    case SubCancel
    with f np that(6) show ?thesis
      by (auto simp: subCancel_def split: submitter.splits if_splits)
  next
    case (WTake w)
    with f np that(7,8) show ?thesis
      by (auto simp: wTake_def split: list.splits if_splits)
  next
    case (WCancel w)
    with f np that(9) show ?thesis
      by (auto simp: wCancel_def split: if_splits)
  next
    case (WInvoke w)
    with f np that(10,11) show ?thesis
      by (auto simp: wInvoke_def split: worker.splits sum.splits if_splits)
  next
    case (WPush w)
    with f np that(12) show ?thesis
      by (auto simp: wPush_def split: worker.splits if_splits)
  next
    case (WAbort w)
    with f np that(13) show ?thesis
      by (auto simp: wAbort_def split: worker.splits if_splits)
  next
    case Closer
    with f np that(14) show ?thesis
      by (auto simp: closer_def split: if_splits)
  next
    case ColRecv
    with f np that(15,16) show ?thesis
      by (auto simp: colRecv_def split: collector.splits list.splits if_splits)
  next
    case ColCheck
    with f np that(17,18) show ?thesis
      by (auto simp: colCheck_def split: collector.splits option.splits)
  next
    case ColSend
    with f np that(19,20,21) show ?thesis
      by (auto simp: colSend_def Let_def split: collector.splits if_splits)
  next
    case ColCancel
    with f np that(22) show ?thesis
      by (auto simp: colCancel_def split: collector.splits if_splits)
  qed
qed


section \<open>Configuration and the error type\<close>

lemma normalize_Workers: "Workers (normalize opt) = (if Workers opt \<le> 0 then 1 else Workers opt)"
  by (simp add: normalize_def Let_def)

lemma normalize_MaxInFlight:
  "MaxInFlight (normalize opt) = max (MaxInFlight opt) (Workers (normalize opt))"
  by (simp add: normalize_def Let_def)

lemma normalize_others:
  "EarlyStopN (normalize opt) = EarlyStopN opt"
  "PanicAsError (normalize opt) = PanicAsError opt"
  "TaskTimeout (normalize opt) = TaskTimeout opt"
  by (simp_all add: normalize_def Let_def)

lemma capacity_pos: "0 < capacity (normalize opt)"
  by (auto simp: capacity_def normalize_def Let_def)

text \<open>
  C6 as the code has it. Invalid configuration is normalised, not rejected:
  \<open>Workers \<le> 0\<close> becomes 1, then \<open>MaxInFlight\<close> below the (normalised) \<open>Workers\<close>
  becomes \<open>Workers\<close>, and the other options are kept. \<open>MapOrdered\<close> has no check that
  refuses an \<open>Options\<close> value: whenever the runtime makes channels of the normalised
  capacity, the pipeline starts with that many workers and without a panic. When the
  normalised capacity is more than \<open>make\<close> accepts, the call does not start the pipeline
  but panics with the runtime's error: in the caller at line 45, or in the goroutine at
  line 51 or 52.
\<close>

theorem C6_normalize:
  "Workers (normalize opt) = (if Workers opt \<le> 0 then 1 else Workers opt)
   \<and> MaxInFlight (normalize opt) =
       (if MaxInFlight opt < Workers (normalize opt) then Workers (normalize opt)
        else MaxInFlight opt)
   \<and> EarlyStopN (normalize opt) = EarlyStopN opt
   \<and> PanicAsError (normalize opt) = PanicAsError opt
   \<and> TaskTimeout (normalize opt) = TaskTimeout opt
   \<and> 1 \<le> Workers (normalize opt) \<and> Workers (normalize opt) \<le> MaxInFlight (normalize opt)
   \<and> (capacity (normalize opt) \<le> maxOutput rt \<and> capacity (normalize opt) \<le> maxTask rt
        \<and> capacity (normalize opt) \<le> maxResult rt
      \<longrightarrow> (MapOrdered rt opt xs :: ('t, 'r, 'e, 'p) launch) = Started (start opt xs))
   \<and> length (workers (start opt xs :: ('t, 'r, 'e, 'p) state)) = nat (Workers (normalize opt))
   \<and> panicked (start opt xs :: ('t, 'r, 'e, 'p) state) = None
   \<and> outputCloses (start opt xs :: ('t, 'r, 'e, 'p) state) = 0
   \<and> (maxOutput rt < capacity (normalize opt)
      \<longrightarrow> (MapOrdered rt opt xs :: ('t, 'r, 'e, 'p) launch) = PanicsInCaller (makechanPanic rt))
   \<and> (capacity (normalize opt) \<le> maxOutput rt
        \<and> (maxTask rt < capacity (normalize opt) \<or> maxResult rt < capacity (normalize opt))
      \<longrightarrow> (MapOrdered rt opt xs :: ('t, 'r, 'e, 'p) launch) = PanicsInGoroutine (makechanPanic rt))"
  by (auto simp: normalize_def Let_def MapOrdered_def start_def)

text \<open>
  The claim fails for the options \<open>opts_huge\<close>: \<open>MaxInFlight = 0\<close> is below
  \<open>Workers = 2^62\<close>, so it is normalised to \<open>2^62\<close>, and \<open>make\<close> of line 45 panics:
  the call ends with \<open>makechan: size out of range\<close> instead of a pipeline.
\<close>

theorem C6_makechan_counterexample:
  "MaxInFlight opts_huge < Workers opts_huge
   \<and> MaxInFlight (normalize opts_huge) = 4611686018427387904
   \<and> (MapOrdered sample_rt opts_huge [1, 2, 3] :: (int, int, string, string) launch)
       = PanicsInCaller ''makechan: size out of range''"
  by (simp add: MapOrdered_def normalize_def Let_def capacity_def opts_huge_def sample_rt_def)

theorem C6_normalize_witness:
  "normalize \<lparr>Workers = -3, MaxInFlight = 0, EarlyStopN = 2, PanicAsError = True, TaskTimeout = 0\<rparr>
     = \<lparr>Workers = 1, MaxInFlight = 1, EarlyStopN = 2, PanicAsError = True, TaskTimeout = 0\<rparr>
   \<and> normalize opts_pool
     = \<lparr>Workers = 2, MaxInFlight = 2, EarlyStopN = 0, PanicAsError = True, TaskTimeout = 0\<rparr>
   \<and> capacity (normalize opts_pool) \<le> maxResult sample_rt
   \<and> (MapOrdered sample_rt opts_pool [1, 0, -1] :: (int, int, string, string) launch)
       = Started (start opts_pool [1, 0, -1])
   \<and> length (workers (start opts_pool [1, 0, -1] :: (int, int, string, string) state)) = 2
   \<and> maxOutput sample_rt < capacity (normalize opts_huge)
   \<and> (MapOrdered sample_rt opts_huge [1, 0, -1] :: (int, int, string, string) launch)
       = PanicsInCaller (makechanPanic sample_rt)
   \<and> capacity (normalize opts_wide) \<le> maxOutput sample_rt
   \<and> maxResult sample_rt < capacity (normalize opts_wide)
   \<and> (MapOrdered sample_rt opts_wide [1, 0, -1] :: (int, int, string, string) launch)
       = PanicsInGoroutine (makechanPanic sample_rt)"
proof -
  have n1: "Workers (normalize \<lparr>Workers = -3, MaxInFlight = 0, EarlyStopN = 2, PanicAsError = True, TaskTimeout = 0\<rparr>) = 1"
    using C6_normalize [where opt = "\<lparr>Workers = -3, MaxInFlight = 0, EarlyStopN = 2, PanicAsError = True, TaskTimeout = 0\<rparr>",
        THEN conjunct1]
    by simp
  have c1: "capacity (normalize opts_pool) \<le> maxOutput sample_rt"
    "capacity (normalize opts_pool) \<le> maxTask sample_rt"
    "capacity (normalize opts_pool) \<le> maxResult sample_rt"
    by (simp_all add: capacity_def normalize_def Let_def opts_pool_def sample_rt_def)
  have c2: "maxOutput sample_rt < capacity (normalize opts_huge)"
    by (simp add: capacity_def normalize_def Let_def opts_huge_def sample_rt_def)
  have c3: "capacity (normalize opts_wide) \<le> maxOutput sample_rt"
    "maxResult sample_rt < capacity (normalize opts_wide)"
    by (simp_all add: capacity_def normalize_def Let_def opts_wide_def sample_rt_def)
  note t1 = C6_normalize [where opt = opts_pool and rt = sample_rt and xs = "[1, 0, -1] :: int list",
      where ?'r = int and ?'e = string]
  note t2 = C6_normalize [where opt = opts_huge and rt = sample_rt and xs = "[1, 0, -1] :: int list",
      where ?'r = int and ?'e = string]
  note t3 = C6_normalize [where opt = opts_wide and rt = sample_rt and xs = "[1, 0, -1] :: int list",
      where ?'r = int and ?'e = string]
  from c1 have s1: "(MapOrdered sample_rt opts_pool [1, 0, -1] :: (int, int, string, string) launch)
       = Started (start opts_pool [1, 0, -1])"
    using t1 by simp
  have w1: "length (workers (start opts_pool [1, 0, -1] :: (int, int, string, string) state)) = 2"
    using t1
    by (simp add: opts_pool_def)
  from c2 have s2: "(MapOrdered sample_rt opts_huge [1, 0, -1] :: (int, int, string, string) launch)
       = PanicsInCaller (makechanPanic sample_rt)"
    using t2 by simp
  from c3 have s3: "(MapOrdered sample_rt opts_wide [1, 0, -1] :: (int, int, string, string) launch)
       = PanicsInGoroutine (makechanPanic sample_rt)"
    using t3 by simp
  have n0: "normalize \<lparr>Workers = -3, MaxInFlight = 0, EarlyStopN = 2, PanicAsError = True, TaskTimeout = 0\<rparr>
     = \<lparr>Workers = 1, MaxInFlight = 1, EarlyStopN = 2, PanicAsError = True, TaskTimeout = 0\<rparr>"
    using n1 by (simp add: normalize_def Let_def)
  have n2: "normalize opts_pool
     = \<lparr>Workers = 2, MaxInFlight = 2, EarlyStopN = 0, PanicAsError = True, TaskTimeout = 0\<rparr>"
    by (simp add: normalize_def Let_def opts_pool_def)
  from n0 n2 c1(3) s1 w1 c2 s2 c3 s3 show ?thesis by (intro conjI)
qed

section \<open>The invariants hold in every reachable state\<close>

lemma drop_eq_Cons:
  assumes "drop n xs = v # vs"
  shows "n < length xs \<and> v = xs ! n \<and> vs = drop (Suc n) xs"
proof -
  from assms have n: "n < length xs" by (cases "n < length xs") auto
  from Cons_nth_drop_Suc [OF n] assms show ?thesis using n by simp
qed

lemma inv_sub_step:
  assumes "step opt fn zero a s = Some s'" "inv_sub xs s"
  shows "inv_sub xs s'"
  using assms
  by (cases rule: step_cases) (auto simp: inv_sub_def dest: drop_eq_Cons sym split: submitter.splits)

lemma inv_tasks_step:
  assumes "step opt fn zero a s = Some s'" "inv_tasks xs s" "inv_sub xs s"
  shows "inv_tasks xs s'"
  using assms
  by (cases rule: step_cases) (auto simp: inv_tasks_def inv_sub_def good_task_def nth_list_update)

lemma inv_results_step:
  assumes "step opt fn zero a s = Some s'" "inv_results opt fn zero xs s" "inv_tasks xs s"
  shows "inv_results opt fn zero xs s'"
  using assms
proof (cases rule: step_cases)
  case Cancel
  with assms show ?thesis by (fastforce simp: inv_results_def good_res_def)
next
  case (WInvoke w t r)
  with assms(2,3) have "good_res opt fn zero xs (ctxDone s) (t_index t) r"
    by (auto simp: inv_tasks_def good_task_def good_res_def)
  with WInvoke assms(2) show ?thesis
    by (auto simp: inv_results_def nth_list_update)
qed (auto simp: inv_results_def nth_list_update split: if_splits)

lemma inv_cursor_step:
  assumes "step opt fn zero a s = Some s'" "inv_cursor s"
  shows "inv_cursor s'"
  using assms
  by (cases rule: step_cases) (auto simp: inv_cursor_def)

lemma inv_closes_step:
  assumes "step opt fn zero a s = Some s'" "inv_closes s"
  shows "inv_closes s'"
  using assms
  by (cases rule: step_cases) (auto simp: inv_closes_def)

lemma successes_append [simp]: "successes (es @ fs) = successes es + successes fs"
  by (simp add: successes_def)

lemma successes_Nil [simp]: "successes [] = 0"
  by (simp add: successes_def)

lemma successes_single [simp]:
  "successes [e] = (if Err (r_res e) = None then 1 else 0)"
  by (simp add: successes_def)

lemma inv_count_step:
  assumes "step opt fn zero a s = Some s'" "inv_count opt s"
  shows "inv_count opt s'"
  using assms
proof (cases rule: step_cases)
  case (ColEmitErr item)
  with assms(2) show ?thesis
    by (auto simp: inv_count_def less_Suc_eq)
next
  case (ColEmit item)
  with assms(2) show ?thesis
    by (auto simp: inv_count_def less_Suc_eq)
next
  case (ColStop item)
  with assms(2) show ?thesis
    by (auto simp: inv_count_def less_Suc_eq)
qed (auto simp: inv_count_def)

lemma inv_nopanic_step:
  assumes "step opt fn zero a s = Some s'" "inv_nopanic opt s"
  shows "inv_nopanic opt s'"
  using assms
  by (cases rule: step_cases) (auto simp: inv_nopanic_def invoke_def split: outcome.splits if_splits)

lemma inv_shut_step:
  assumes "step opt fn zero a s = Some s'" "inv_shut s"
  shows "inv_shut s'"
  using assms
  by (cases rule: step_cases) (auto simp: inv_shut_def nth_list_update list_all_length)

lemma length_workers_step:
  assumes "step opt fn zero a s = Some s'"
  shows "length (workers s') = length (workers s)"
  using assms by (cases rule: step_cases) auto

lemma inv_quiet_step:
  assumes "step opt fn zero a s = Some s'" "inv_quiet opt s" "inv_shut s" "inv_cursor s"
  shows "inv_quiet opt s'"
  using assms
  by (cases rule: step_cases)
     (auto simp: inv_quiet_def inv_shut_def inv_cursor_def quota_def nth_list_update)

lemma held_update:
  assumes "w < length ws" "\<exists>v < length ws. held (ws ! v) = Some i" "held (ws ! w) \<noteq> Some i"
  shows "\<exists>v < length (ws[w := x]). held (ws[w := x] ! v) = Some i"
proof -
  from assms(2) obtain v where v: "v < length ws" "held (ws ! v) = Some i" by blast
  with assms(3) have "v \<noteq> w" by auto
  with v show ?thesis by (auto simp: nth_list_update)
qed

lemma held_update_same:
  assumes "w < length ws" "held x = Some i"
  shows "\<exists>v < length (ws[w := x]). held (ws[w := x] ! v) = Some i"
  using assms by (auto simp: nth_list_update intro!: exI[of _ w])

lemma inv_conserve_step:
  assumes "step opt fn zero a s = Some s'" "inv_conserve s" "inv_cursor s"
  shows "inv_conserve s'"
  using assms
proof (cases rule: step_cases)
  case (SubSend v)
  with assms(2) show ?thesis
    by (auto simp: inv_conserve_def less_Suc_eq)
next
  case (WTake w t ts)
  show ?thesis
    unfolding inv_conserve_def
  proof (intro impI allI)
    fix i assume nd: "\<not> ctxDone s'" and i: "i < index s'"
    from WTake nd i assms(2) have
      old: "i < length (emitted s) \<or> i \<in> t_index ` set (taskChan s) \<or>
           (\<exists>w < length (workers s). held (workers s ! w) = Some i) \<or>
           i \<in> r_index ` set (resultChan s) \<or> buffer s i \<noteq> None \<or>
           (\<exists>item. col s = ColSelect item \<and> nextIndex s = i)"
      by (simp add: inv_conserve_def)
    have ws: "workers s' = (workers s)[w := WCall t]" using WTake by simp
    have hw: "held (workers s ! w) \<noteq> Some i" using WTake by simp
    show "i < length (emitted s') \<or> i \<in> t_index ` set (taskChan s') \<or>
           (\<exists>w < length (workers s'). held (workers s' ! w) = Some i) \<or>
           i \<in> r_index ` set (resultChan s') \<or> buffer s' i \<noteq> None \<or>
           (\<exists>item. col s' = ColSelect item \<and> nextIndex s' = i)"
    proof (cases "i = t_index t")
      case True
      then have "\<exists>v < length (workers s'). held (workers s' ! v) = Some i"
        unfolding ws using held_update_same [OF WTake(3), of "WCall t" i] by simp
      then show ?thesis by blast
    next
      case False
      from old show ?thesis
      proof (elim disjE)
        assume "\<exists>w < length (workers s). held (workers s ! w) = Some i"
        from held_update [OF WTake(3) this hw, of "WCall t"]
        show ?thesis unfolding ws by blast
      qed (use WTake False in auto)
    qed
  qed
next
  case (WInvoke w t r)
  show ?thesis
    unfolding inv_conserve_def
  proof (intro impI allI)
    fix i assume nd: "\<not> ctxDone s'" and i: "i < index s'"
    from WInvoke nd i assms(2) have
      old: "i < length (emitted s) \<or> i \<in> t_index ` set (taskChan s) \<or>
           (\<exists>w < length (workers s). held (workers s ! w) = Some i) \<or>
           i \<in> r_index ` set (resultChan s) \<or> buffer s i \<noteq> None \<or>
           (\<exists>item. col s = ColSelect item \<and> nextIndex s = i)"
      by (simp add: inv_conserve_def)
    have ws: "workers s' = (workers s)[w := WSend \<lparr>r_index = t_index t, r_res = r\<rparr>]"
      using WInvoke by simp
    show "i < length (emitted s') \<or> i \<in> t_index ` set (taskChan s') \<or>
           (\<exists>w < length (workers s'). held (workers s' ! w) = Some i) \<or>
           i \<in> r_index ` set (resultChan s') \<or> buffer s' i \<noteq> None \<or>
           (\<exists>item. col s' = ColSelect item \<and> nextIndex s' = i)"
    proof (cases "i = t_index t")
      case True
      then have "\<exists>v < length (workers s'). held (workers s' ! v) = Some i"
        unfolding ws
        using held_update_same [OF WInvoke(3), of "WSend \<lparr>r_index = t_index t, r_res = r\<rparr>" i]
        by simp
      then show ?thesis by blast
    next
      case False
      then have hw: "held (workers s ! w) \<noteq> Some i" using WInvoke by simp
      from old show ?thesis
      proof (elim disjE)
        assume "\<exists>w < length (workers s). held (workers s ! w) = Some i"
        from held_update [OF WInvoke(3) this hw, of "WSend \<lparr>r_index = t_index t, r_res = r\<rparr>"]
        show ?thesis unfolding ws by blast
      qed (use WInvoke in auto)
    qed
  qed
next
  case (WPush w ir)
  show ?thesis
    unfolding inv_conserve_def
  proof (intro impI allI)
    fix i assume nd: "\<not> ctxDone s'" and i: "i < index s'"
    from WPush nd i assms(2) have
      old: "i < length (emitted s) \<or> i \<in> t_index ` set (taskChan s) \<or>
           (\<exists>w < length (workers s). held (workers s ! w) = Some i) \<or>
           i \<in> r_index ` set (resultChan s) \<or> buffer s i \<noteq> None \<or>
           (\<exists>item. col s = ColSelect item \<and> nextIndex s = i)"
      by (simp add: inv_conserve_def)
    have ws: "workers s' = (workers s)[w := WSelect]" using WPush by simp
    show "i < length (emitted s') \<or> i \<in> t_index ` set (taskChan s') \<or>
           (\<exists>w < length (workers s'). held (workers s' ! w) = Some i) \<or>
           i \<in> r_index ` set (resultChan s') \<or> buffer s' i \<noteq> None \<or>
           (\<exists>item. col s' = ColSelect item \<and> nextIndex s' = i)"
    proof (cases "i = r_index ir")
      case True
      with WPush show ?thesis by simp
    next
      case False
      then have hw: "held (workers s ! w) \<noteq> Some i" using WPush by simp
      from old show ?thesis
      proof (elim disjE)
        assume "\<exists>w < length (workers s). held (workers s ! w) = Some i"
        from held_update [OF WPush(3) this hw, of WSelect]
        show ?thesis unfolding ws by blast
      qed (use WPush in auto)
    qed
  qed
next
  case (WExit w)
  show ?thesis
    unfolding inv_conserve_def
  proof (intro impI allI)
    fix i assume nd: "\<not> ctxDone s'" and i: "i < index s'"
    from WExit nd i assms(2) have
      old: "i < length (emitted s) \<or> i \<in> t_index ` set (taskChan s) \<or>
           (\<exists>w < length (workers s). held (workers s ! w) = Some i) \<or>
           i \<in> r_index ` set (resultChan s) \<or> buffer s i \<noteq> None \<or>
           (\<exists>item. col s = ColSelect item \<and> nextIndex s = i)"
      by (simp add: inv_conserve_def)
    have ws: "workers s' = (workers s)[w := WDone]" using WExit by simp
    have hw: "held (workers s ! w) \<noteq> Some i" using WExit by simp
    from old show "i < length (emitted s') \<or> i \<in> t_index ` set (taskChan s') \<or>
           (\<exists>w < length (workers s'). held (workers s' ! w) = Some i) \<or>
           i \<in> r_index ` set (resultChan s') \<or> buffer s' i \<noteq> None \<or>
           (\<exists>item. col s' = ColSelect item \<and> nextIndex s' = i)"
    proof (elim disjE)
      assume "\<exists>w < length (workers s). held (workers s ! w) = Some i"
      from held_update [OF WExit(3) this hw, of WDone]
      show ?thesis unfolding ws by blast
    qed (use WExit in auto)
  qed
next
  case (ColRecv ir rs)
  with assms(2) show ?thesis
    by (fastforce simp: inv_conserve_def)
next
  case (ColHit item)
  with assms(2) show ?thesis
    by (fastforce simp: inv_conserve_def)
next
  case (ColEmitErr item)
  with assms(2,3) show ?thesis
    by (fastforce simp: inv_conserve_def inv_cursor_def less_Suc_eq)
next
  case (ColEmit item)
  with assms(2,3) show ?thesis
    by (fastforce simp: inv_conserve_def inv_cursor_def less_Suc_eq)
next
  case (ColStop item)
  with assms(2,3) show ?thesis
    by (fastforce simp: inv_conserve_def inv_cursor_def less_Suc_eq)
qed (auto simp: inv_conserve_def)

lemma inv_out_emit:
  assumes "inv_out s" "outputChan s' = outputChan s @ [item]"
    "emitted s' = emitted s @ [\<lparr>r_index = k, r_res = item\<rparr>]"
  shows "inv_out s'"
proof -
  from assms(1) obtain n where n: "n \<le> length (emitted s)"
    "outputChan s = map r_res (drop n (emitted s))" by (auto simp: inv_out_def)
  with assms(2,3) have "n \<le> length (emitted s') \<and> outputChan s' = map r_res (drop n (emitted s'))"
    by simp
  then show ?thesis unfolding inv_out_def by blast
qed

lemma inv_out_step:
  assumes "step opt fn zero a s = Some s'" "inv_out s"
  shows "inv_out s'"
  using assms
proof (cases rule: step_cases)
  case (Consume r rs)
  from assms(2) obtain n where n: "n \<le> length (emitted s)"
    "outputChan s = map r_res (drop n (emitted s))" by (auto simp: inv_out_def)
  with Consume have "rs = map r_res (drop (Suc n) (emitted s))"
    by (metis drop_Suc drop_map list.sel(3) tl_drop)
  moreover from n Consume have "Suc n \<le> length (emitted s)"
    by (cases "n = length (emitted s)") auto
  ultimately show ?thesis using Consume by (auto simp: inv_out_def)
next
  case (ColEmitErr item)
  with assms(2) show ?thesis by (auto intro: inv_out_emit)
next
  case (ColEmit item)
  with assms(2) show ?thesis by (auto intro: inv_out_emit)
next
  case (ColStop item)
  with assms(2) show ?thesis by (auto intro: inv_out_emit)
qed (auto simp: inv_out_def)

lemma finite_buffer_step:
  assumes "step opt fn zero a s = Some s'" "finite (dom (buffer s))"
  shows "finite (dom (buffer s'))"
  using assms by (cases rule: step_cases) auto

lemma inv_step:
  assumes "step opt fn zero a s = Some s'" "inv opt fn zero xs s"
  shows "inv opt fn zero xs s'"
  using assms unfolding inv_def
  by (auto intro: inv_sub_step inv_tasks_step inv_results_step inv_cursor_step inv_out_step
      inv_closes_step inv_count_step inv_nopanic_step inv_shut_step inv_quiet_step
      inv_conserve_step finite_buffer_step simp: length_workers_step)

lemma inv_init: "inv (normalize opt) fn zero xs (start opt xs)"
  by (simp add: inv_def inv_sub_def inv_tasks_def inv_results_def inv_cursor_def inv_out_def
      inv_closes_def inv_count_def inv_nopanic_def inv_shut_def inv_quiet_def inv_conserve_def
      start_def)

lemma Started_start:
  assumes "MapOrdered rt opt xs = Started s"
  shows "s = start opt xs"
  using assms by (simp add: MapOrdered_def Let_def split: if_splits)

lemma reach_inv:
  assumes "reach rt opt fn zero xs s"
  shows "inv (normalize opt) fn zero xs s"
  using assms
proof induction
  case (reach_init s)
  from Started_start [OF reach_init] show ?case by (simp add: inv_init)
next
  case (reach_step s a s')
  then show ?case by (auto intro: inv_step)
qed

lemma exec_reach:
  assumes "exec (normalize opt) fn zero evs s = Some s'" "reach rt opt fn zero xs s"
  shows "reach rt opt fn zero xs s'"
  using assms
proof (induction evs arbitrary: s)
  case Nil
  then show ?case by simp
next
  case (Cons a evs)
  then show ?case by (auto split: option.splits intro: reach_step)
qed

section \<open>Completion\<close>

text \<open>
  The \<open>k\<close>-th emitted Result carries index \<open>k\<close> and is what the invocation on the
  \<open>k\<close>-th input item gives; that invocation saw a cancelled context only if the context
  is cancelled.
\<close>

lemma emitted_nth:
  assumes i: "inv opt fn zero xs s" and k: "k < length (emitted s)"
  shows "r_index (emitted s ! k) = k \<and> k < length xs \<and>
         (\<exists>d. (d \<longrightarrow> ctxDone s) \<and>
              invoke opt fn zero (taskCtx opt d) (xs ! k) = Inr (r_res (emitted s ! k)))"
proof -
  from i have cu: "inv_cursor s" and re: "inv_results opt fn zero xs s"
    by (simp_all add: inv_def)
  from cu k have "map r_index (emitted s) ! k = [0..<length (emitted s)] ! k"
    by (simp add: inv_cursor_def)
  with k have rk: "r_index (emitted s ! k) = k" by simp
  from k have "emitted s ! k \<in> set (emitted s)" by simp
  with re have "good_res opt fn zero xs (ctxDone s) (r_index (emitted s ! k)) (r_res (emitted s ! k))"
    by (simp add: inv_results_def)
  with rk show ?thesis by (simp add: good_res_def)
qed

text \<open>
  When the collector has returned without cancellation and without reaching the quota,
  every input item has been emitted.
\<close>

lemma complete:
  assumes i: "inv opt fn zero xs s" and w: "1 \<le> Workers opt"
    and nd: "\<not> ctxDone s" and cd: "col s = ColDone" and nq: "\<not> quota opt s"
  shows "length (emitted s) = length xs"
proof -
  from i have q: "inv_quiet opt s" and sh: "inv_shut s" and su: "inv_sub xs s"
    and co: "inv_conserve s" and cu: "inv_cursor s" and re: "inv_results opt fn zero xs s"
    and lw: "length (workers s) = nat (Workers opt)"
    by (simp_all add: inv_def)
  from q nd cd nq have rc: "resultClosed s" and rch: "resultChan s = []"
    and bn: "buffer s (nextIndex s) = None" and ni: "nextIndex s = length (emitted s)"
    by (auto simp: inv_quiet_def)
  from sh rc have wd: "\<forall>w < length (workers s). workers s ! w = WDone"
    by (simp add: inv_shut_def)
  from lw w have w0: "0 < length (workers s)" by simp
  with wd have "workers s ! 0 = WDone" by simp
  with q nd w0 have tch: "taskChan s = []" and tc: "taskClosed s"
    by (auto simp: inv_quiet_def)
  from sh tc have "sub s = SubDone" by (simp add: inv_shut_def)
  with su nd have ix: "index s = length xs" by (simp add: inv_sub_def)
  have le: "length (emitted s) \<le> length xs"
  proof (cases "emitted s = []")
    case True
    then show ?thesis by simp
  next
    case False
    then have "length (emitted s) - 1 < length (emitted s)" by simp
    from emitted_nth [OF i this] have "length (emitted s) - 1 < length xs" by simp
    then show ?thesis by simp
  qed
  have "\<not> length (emitted s) < length xs"
  proof
    assume "length (emitted s) < length xs"
    with ix have "length (emitted s) < index s" by simp
    with co nd have
      "length (emitted s) \<in> t_index ` set (taskChan s) \<or>
       (\<exists>w < length (workers s). held (workers s ! w) = Some (length (emitted s))) \<or>
       length (emitted s) \<in> r_index ` set (resultChan s) \<or>
       buffer s (length (emitted s)) \<noteq> None \<or>
       (\<exists>item. col s = ColSelect item \<and> nextIndex s = length (emitted s))"
      unfolding inv_conserve_def by blast
    with tch rch wd cd bn ni show False by auto
  qed
  with le show ?thesis by simp
qed

lemma synchronous_eq:
  assumes "length rs = length xs"
    "\<forall>k < length xs. invoke opt fn zero c (xs ! k) = Inr (rs ! k)"
  shows "synchronous opt fn zero c xs = Inr rs"
  using assms
proof (induction xs arbitrary: rs)
  case Nil
  then show ?case by simp
next
  case (Cons x xs)
  then obtain r rs' where rs: "rs = r # rs'" by (cases rs) auto
  with Cons.prems have "invoke opt fn zero c x = Inr r" by auto
  moreover from Cons.prems rs have "synchronous opt fn zero c xs = Inr rs'"
    by (intro Cons.IH) auto
  ultimately show ?case using rs by simp
qed

lemma available_eq:
  assumes "length es = length xs"
    "\<forall>k < length xs. invoke opt fn zero (taskCtx opt False) (xs ! k) = Inr (r_res (es ! k))"
  shows "available opt fn zero xs = successes es"
  using assms
proof (induction xs arbitrary: es)
  case Nil
  then show ?case by (simp add: available_def successes_def)
next
  case (Cons x xs)
  then obtain e es' where es: "es = e # es'" by (cases es) auto
  with Cons.prems have "invoke opt fn zero (taskCtx opt False) x = Inr (r_res e)" by auto
  moreover from Cons.prems es have "available opt fn zero xs = successes es'"
    by (intro Cons.IH) auto
  ultimately show ?case using es by (simp add: available_def successes_def)
qed

section \<open>Progress and termination\<close>

lemma sum_list_weight_update:
  assumes "w < length ws"
  shows "sum_list (map weight_worker (ws[w := x])) + weight_worker (ws ! w)
           = sum_list (map weight_worker ws) + weight_worker x"
  using assms
proof (induction ws arbitrary: w)
  case Nil
  then show ?case by simp
next
  case (Cons a ws)
  then show ?case by (cases w) auto
qed

lemma card_dom_upd_le:
  assumes "finite (dom m)"
  shows "card (dom (m(k \<mapsto> v))) \<le> Suc (card (dom m))"
  using assms by (simp add: card_insert_if)

lemma card_dom_del:
  assumes "finite (dom m)" "m k = Some v"
  shows "Suc (card (dom (m(k := None)))) = card (dom m)"
proof -
  from assms(2) have k: "k \<in> dom m" by auto
  have "dom (m(k := None)) = dom m - {k}" by auto
  with card_Suc_Diff1 [OF assms(1) k] show ?thesis by simp
qed

lemma potential_step:
  assumes "step opt fn zero a s = Some s'" "finite (dom (buffer s))"
  shows "potential s' < potential s"
  using assms
proof (cases rule: step_cases)
  case (WTake w t ts)
  with sum_list_weight_update [OF WTake(3), of "WCall t"] show ?thesis
    by (simp add: potential_def)
next
  case (WExit w)
  with sum_list_weight_update [OF WExit(3), of WDone] show ?thesis
    by (simp add: potential_def)
next
  case (WCancel w)
  with sum_list_weight_update [OF WCancel(3), of WDone] show ?thesis
    by (simp add: potential_def)
next
  case (WInvoke w t r)
  with sum_list_weight_update [OF WInvoke(3), of "WSend \<lparr>r_index = t_index t, r_res = r\<rparr>"]
  show ?thesis by (simp add: potential_def)
next
  case (WPush w ir)
  with sum_list_weight_update [OF WPush(3), of WSelect] show ?thesis
    by (simp add: potential_def)
next
  case (WAbort w ir)
  with sum_list_weight_update [OF WAbort(3), of WDone] show ?thesis
    by (simp add: potential_def)
next
  case (ColRecv ir rs)
  with card_dom_upd_le [OF assms(2), of "r_index ir" "r_res ir"] show ?thesis
    by (simp add: potential_def)
next
  case (ColHit item)
  with card_dom_del [OF assms(2) ColHit(4)] show ?thesis
    by (simp add: potential_def)
qed (simp_all add: potential_def)

lemma exec_bounded:
  assumes "exec opt fn zero evs s = Some s'" "finite (dom (buffer s))"
  shows "length evs + potential s' \<le> potential s"
  using assms
proof (induction evs arbitrary: s)
  case Nil
  then show ?case by simp
next
  case (Cons a evs)
  from Cons.prems(1) obtain s1 where s1: "step opt fn zero a s = Some s1"
    and ex: "exec opt fn zero evs s1 = Some s'"
    by (auto split: option.splits)
  from finite_buffer_step [OF s1 Cons.prems(2)] Cons.IH [OF ex]
  have "length evs + potential s' \<le> potential s1" by simp
  with potential_step [OF s1 Cons.prems(2)] show ?case by simp
qed

lemma progress:
  assumes i: "inv opt fn zero xs s" and cap: "0 < capacity opt"
    and np: "panicked s = None" and nd: "col s \<noteq> ColDone"
  shows "\<exists>a. a \<noteq> Cancel \<and> step opt fn zero a s \<noteq> None"
proof (cases "col s")
  case ColLookup
  with np have "step opt fn zero ColCheck s \<noteq> None"
    by (simp add: step_def colCheck_def split: option.splits)
  then show ?thesis by blast
next
  case (ColSelect item)
  show ?thesis
  proof (cases "length (outputChan s) < capacity opt")
    case True
    with ColSelect np have "step opt fn zero ColSend s \<noteq> None"
      by (simp add: step_def colSend_def Let_def)
    then show ?thesis by blast
  next
    case False
    with cap have "outputChan s \<noteq> []" by auto
    with np have "step opt fn zero Consume s \<noteq> None"
      by (simp add: step_def consume_def split: list.splits)
    then show ?thesis by blast
  qed
next
  case ColDone
  with nd show ?thesis by simp
next
  case ColRange
  show ?thesis
  proof (cases "resultChan s \<noteq> [] \<or> resultClosed s")
    case True
    with ColRange np have "step opt fn zero ColRecv s \<noteq> None"
      by (auto simp: step_def colRecv_def split: list.splits)
    then show ?thesis by blast
  next
    case False
    then have re: "resultChan s = []" and nrc: "\<not> resultClosed s" by simp_all
    show ?thesis
    proof (cases "list_all (\<lambda>w. w = WDone) (workers s)")
      case True
      with nrc np have "step opt fn zero Closer s \<noteq> None"
        by (simp add: step_def closer_def)
      then show ?thesis by blast
    next
      case False
      then obtain w where w: "w < length (workers s)" "workers s ! w \<noteq> WDone"
        by (auto simp: list_all_length)
      show ?thesis
      proof (cases "workers s ! w")
        case WDone
        with w show ?thesis by simp
      next
        case (WCall t)
        with w np have "step opt fn zero (WInvoke w) s \<noteq> None"
          by (simp add: step_def wInvoke_def split: sum.splits)
        then show ?thesis by blast
      next
        case (WSend ir)
        with w np re cap have "step opt fn zero (WPush w) s \<noteq> None"
          by (simp add: step_def wPush_def)
        then show ?thesis by blast
      next
        case WSelect
        show ?thesis
        proof (cases "taskChan s \<noteq> [] \<or> taskClosed s")
          case True
          with WSelect w np have "step opt fn zero (WTake w) s \<noteq> None"
            by (auto simp: step_def wTake_def split: list.splits)
          then show ?thesis by blast
        next
          case False
          then have te: "taskChan s = []" and ntc: "\<not> taskClosed s" by simp_all
          from i ntc have nsd: "sub s \<noteq> SubDone" by (simp add: inv_def inv_shut_def)
          show ?thesis
          proof (cases "sub s")
            case SubDone
            with nsd show ?thesis by simp
          next
            case SubRange
            with np have "step opt fn zero SubNext s \<noteq> None"
              by (simp add: step_def subNext_def split: list.splits)
            then show ?thesis by blast
          next
            case (SubSelect v)
            with np te cap have "step opt fn zero SubSend s \<noteq> None"
              by (simp add: step_def subSend_def)
            then show ?thesis by blast
          qed
        qed
      qed
    qed
  qed
qed

lemma events_complete:
  assumes "step opt fn zero a s \<noteq> None"
  shows "a = Cancel \<or> a \<in> set (events (length (workers s)))"
proof -
  from assms obtain s' where "step opt fn zero a s = Some s'" by auto
  then show ?thesis
    by (cases rule: step_cases) (auto simp: events_def)
qed

lemma enabled_Nil:
  "enabled opt fn zero s = [] \<longleftrightarrow> (\<forall>a. a \<noteq> Cancel \<longrightarrow> step opt fn zero a s = None)"
proof
  assume e: "enabled opt fn zero s = []"
  show "\<forall>a. a \<noteq> Cancel \<longrightarrow> step opt fn zero a s = None"
  proof (intro allI impI)
    fix a :: event assume a: "a \<noteq> Cancel"
    show "step opt fn zero a s = None"
    proof (rule ccontr)
      assume n: "step opt fn zero a s \<noteq> None"
      with events_complete [OF n] a have "a \<in> set (enabled opt fn zero s)"
        by (simp add: enabled_def)
      with e show False by simp
    qed
  qed
next
  assume "\<forall>a. a \<noteq> Cancel \<longrightarrow> step opt fn zero a s = None"
  then show "enabled opt fn zero s = []"
    by (auto simp: enabled_def filter_empty_conv events_def)
qed

section \<open>The options after normalisation\<close>

lemma invoke_normalize [simp]: "invoke (normalize opt) fn zero c v = invoke opt fn zero c v"
  by (simp add: invoke_def normalize_others cong: outcome.case_cong)

lemma taskCtx_normalize [simp]: "taskCtx (normalize opt) d = taskCtx opt d"
  by (simp add: taskCtx_def normalize_others)

lemma quota_normalize [simp]: "quota (normalize opt) s = quota opt s"
  by (simp add: quota_def normalize_others)

lemma available_normalize [simp]: "available (normalize opt) fn zero xs = available opt fn zero xs"
  by (simp add: available_def)

lemma synchronous_normalize [simp]:
  "synchronous (normalize opt) fn zero (taskCtx (normalize opt) d) xs = synchronous opt fn zero (taskCtx opt d) xs"
  by (induction xs) (simp_all cong: sum.case_cong)

lemma Workers_normalize_pos: "1 \<le> Workers (normalize opt)"
  by (simp add: normalize_Workers)

section \<open>The concrete runs\<close>

lemmas run_simps = final_def observe_def step_def cancel_def consume_def subNext_def subSend_def
  subCancel_def wTake_def wCancel_def wInvoke_def wPush_def wAbort_def closer_def
  colRecv_def colCheck_def colSend_def colCancel_def capacity_def normalize_def start_def
  invoke_def taskCtx_def Let_def sample_fn_def numeral_2_eq_2

lemma final_reach:
  fixes fn :: "ctx_view \<Rightarrow> 't \<Rightarrow> ('r, 'e, 'p) outcome"
  assumes "map_option f (exec (normalize opt) fn zero evs (start opt xs)) = Some y"
    and "MapOrdered rt opt xs = Started (start opt xs :: ('t, 'r, 'e, 'p) state)"
  shows "reach rt opt fn zero xs (final opt fn zero evs xs) \<and> f (final opt fn zero evs xs) = y"
proof -
  from assms(1) obtain s where s: "exec (normalize opt) fn zero evs (start opt xs) = Some s"
    and y: "f s = y" by auto
  from exec_reach [OF s reach_init [OF assms(2)]] s y show ?thesis by (simp add: final_def)
qed

lemma sample_started:
  "MapOrdered sample_rt opts_pool xs = Started (start opts_pool xs)"
  "MapOrdered sample_rt opts_single xs = Started (start opts_single xs)"
  "MapOrdered sample_rt opts_stop xs = Started (start opts_stop xs)"
  by (simp_all add: MapOrdered_def sample_rt_def capacity_def normalize_def Let_def
      opts_pool_def opts_single_def opts_stop_def)

lemma run_pool:
  "map_option observe
     (exec (normalize opts_pool) sample_fn 0 sched_pool (start opts_pool [1, 0, -1]))
   = Some ([\<lparr>r_index = 0, r_res = \<lparr>Value = 2, Err = None\<rparr>\<rparr>,
            \<lparr>r_index = 1, r_res = \<lparr>Value = 0, Err = Some (Recovered (PanicError ''boom''))\<rparr>\<rparr>,
            \<lparr>r_index = 2, r_res = \<lparr>Value = 0, Err = Some (Failure ''negative'')\<rparr>\<rparr>],
           ColDone, 1, False, None)"
  by (simp add: run_simps opts_pool_def sched_pool_def)

lemma run_single:
  "map_option observe
     (exec (normalize opts_single) sample_fn 0 sched_single (start opts_single [1, -2]))
   = Some ([\<lparr>r_index = 0, r_res = \<lparr>Value = 2, Err = None\<rparr>\<rparr>,
            \<lparr>r_index = 1, r_res = \<lparr>Value = 0, Err = Some (Failure ''negative'')\<rparr>\<rparr>],
           ColDone, 1, False, None)"
  by (simp add: run_simps opts_single_def sched_single_def)

lemma run_stop:
  "map_option observe
     (exec (normalize opts_stop) sample_fn 0 sched_stop (start opts_stop [-1, 1]))
   = Some ([\<lparr>r_index = 0, r_res = \<lparr>Value = 0, Err = Some (Failure ''negative'')\<rparr>\<rparr>,
            \<lparr>r_index = 1, r_res = \<lparr>Value = 2, Err = None\<rparr>\<rparr>],
           ColDone, 1, False, None)"
  by (simp add: run_simps opts_stop_def sched_stop_def)

lemma run_strand:
  "map_option (\<lambda>s. (observe s, workers s, sub s, length (resultChan s), length (taskChan s),
                    enabled (normalize opts_stop) sample_fn 0 s))
     (exec (normalize opts_stop) sample_fn 0 sched_strand (start opts_stop [1, 2, 3, 4, 5]))
   = Some (([\<lparr>r_index = 0, r_res = \<lparr>Value = 2, Err = None\<rparr>\<rparr>], ColDone, 1, False, None),
           [WSend \<lparr>r_index = 2, r_res = \<lparr>Value = 6, Err = None\<rparr>\<rparr>], SubSelect 5, 1, 1, [])"
  by (simp add: run_simps opts_stop_def sched_strand_def enabled_def events_def)

lemma run_lookup:
  "map_option (\<lambda>s. (observe s, buffer s (nextIndex s), outputChan s))
     (exec (normalize opts_single) sample_fn 0 sched_lookup (start opts_single [1]))
   = Some (([], ColLookup, 0, False, None), Some \<lparr>Value = 2, Err = None\<rparr>, [])"
  by (simp add: run_simps opts_single_def sched_lookup_def)

lemmas end_pool_facts = final_reach [OF run_pool sample_started(1), folded end_pool_def]
lemmas end_single_facts = final_reach [OF run_single sample_started(2), folded end_single_def]
lemmas end_stop_facts = final_reach [OF run_stop sample_started(3), folded end_stop_def]
lemmas end_strand_facts = final_reach [OF run_strand sample_started(3), folded end_strand_def]
lemmas at_lookup_facts = final_reach [OF run_lookup sample_started(2), folded at_lookup_def]

section \<open>Order of the output\<close>

text \<open>
  C1. In every reachable state, for every input, every transform and every options
  value (hence every worker count): the indices of the Results emitted so far are
  \<open>0, 1, 2, ...\<close> without a gap, in this order, so of two emitted Results the one with the
  smaller index was emitted first. The index is the original one: the \<open>k\<close>-th emitted
  Result is what a worker's invocation on the \<open>k\<close>-th input item gives. What waits in
  \<open>output\<close> is a suffix of what was emitted. Early stop and cancellation only cut the
  sequence short.
\<close>

theorem C1_order:
  assumes "reach rt opt fn zero xs s"
  shows "map r_index (emitted s) = [0..<length (emitted s)]
    \<and> (\<forall>i j. i < j \<and> j < length (emitted s)
          \<longrightarrow> r_index (emitted s ! i) < r_index (emitted s ! j))
    \<and> length (emitted s) \<le> length xs
    \<and> (\<forall>k < length (emitted s).
          \<exists>d. (d \<longrightarrow> ctxDone s) \<and>
              invoke opt fn zero (taskCtx opt d) (xs ! k) = Inr (r_res (emitted s ! k)))
    \<and> (\<exists>n \<le> length (emitted s). outputChan s = map r_res (drop n (emitted s)))"
proof -
  from reach_inv [OF assms] have i: "inv (normalize opt) fn zero xs s" .
  then have cu: "map r_index (emitted s) = [0..<length (emitted s)]"
    and ou: "\<exists>n \<le> length (emitted s). outputChan s = map r_res (drop n (emitted s))"
    by (simp_all add: inv_def inv_cursor_def inv_out_def)
  have ix: "r_index (emitted s ! k) = k" and lt: "k < length xs"
    and pr: "\<exists>d. (d \<longrightarrow> ctxDone s) \<and>
              invoke opt fn zero (taskCtx opt d) (xs ! k) = Inr (r_res (emitted s ! k))"
    if "k < length (emitted s)" for k
    using emitted_nth [OF i that] by simp_all
  have le: "length (emitted s) \<le> length xs"
  proof (cases "emitted s = []")
    case True
    then show ?thesis by simp
  next
    case False
    then have "length (emitted s) - 1 < length (emitted s)" by simp
    from lt [OF this] show ?thesis by simp
  qed
  have mono: "\<forall>i j. i < j \<and> j < length (emitted s)
          \<longrightarrow> r_index (emitted s ! i) < r_index (emitted s ! j)"
  proof (intro allI impI)
    fix i j assume ij: "i < j \<and> j < length (emitted s)"
    then have "i < length (emitted s)" and "j < length (emitted s)" by simp_all
    then have "r_index (emitted s ! i) = i" and "r_index (emitted s ! j) = j"
      by (simp_all add: ix)
    with ij show "r_index (emitted s ! i) < r_index (emitted s ! j)" by simp
  qed
  have prov: "\<forall>k < length (emitted s).
          \<exists>d. (d \<longrightarrow> ctxDone s) \<and>
              invoke opt fn zero (taskCtx opt d) (xs ! k) = Inr (r_res (emitted s ! k))"
    using pr by simp
  show ?thesis
    apply (intro conjI)
        apply (rule cu)
       apply (rule mono)
      apply (rule le)
     apply (rule prov)
    apply (rule ou)
    done
qed

theorem C1_order_witness:
  "reach sample_rt opts_pool sample_fn 0 [1, 0, -1] end_pool
   \<and> map r_index (emitted end_pool) = [0, 1, 2]
   \<and> r_index (emitted end_pool ! 0) < r_index (emitted end_pool ! 2)
   \<and> invoke opts_pool sample_fn 0 (taskCtx opts_pool False) ([1, 0, -1] ! 1)
       = Inr (r_res (emitted end_pool ! 1))"
proof -
  have r: "reach sample_rt opts_pool sample_fn 0 [1, 0, -1] end_pool"
    and o: "emitted end_pool =
       [\<lparr>r_index = 0, r_res = \<lparr>Value = 2, Err = None\<rparr>\<rparr>,
        \<lparr>r_index = 1, r_res = \<lparr>Value = 0, Err = Some (Recovered (PanicError ''boom''))\<rparr>\<rparr>,
        \<lparr>r_index = 2, r_res = \<lparr>Value = 0, Err = Some (Failure ''negative'')\<rparr>\<rparr>]"
    and d: "\<not> ctxDone end_pool"
    using end_pool_facts by (simp_all add: observe_def)
  from o have l: "length (emitted end_pool) = 3" by simp
  note t = C1_order [OF r]
  from t have a: "map r_index (emitted end_pool) = [0..<length (emitted end_pool)]"
    by (rule conjunct1)
  from t have b: "\<forall>i j. i < j \<and> j < length (emitted end_pool)
          \<longrightarrow> r_index (emitted end_pool ! i) < r_index (emitted end_pool ! j)"
    by (elim conjE)
  from t have c: "\<forall>k < length (emitted end_pool).
          \<exists>d. (d \<longrightarrow> ctxDone end_pool) \<and>
              invoke opts_pool sample_fn 0 (taskCtx opts_pool d) ([1, 0, -1] ! k)
                = Inr (r_res (emitted end_pool ! k))"
    by (elim conjE)
  from a l have "map r_index (emitted end_pool) = [0, 1, 2]"
    by (simp add: upt_rec)
  moreover from b l have "r_index (emitted end_pool ! 0) < r_index (emitted end_pool ! 2)"
    by simp
  moreover have "invoke opts_pool sample_fn 0 (taskCtx opts_pool False) ([1, 0, -1] ! 1)
       = Inr (r_res (emitted end_pool ! 1))"
  proof -
    from l have "1 < length (emitted end_pool)" by simp
    with c obtain d0 where d0: "d0 \<longrightarrow> ctxDone end_pool"
      "invoke opts_pool sample_fn 0 (taskCtx opts_pool d0) ([1, 0, -1] ! 1)
                = Inr (r_res (emitted end_pool ! 1))"
      by blast
    from d0(1) d have "d0 = False" by simp
    with d0(2) show ?thesis by simp
  qed
  ultimately show ?thesis using r by simp
qed

section \<open>Sequential equivalence\<close>

text \<open>
  C5. With \<open>Workers = 1\<close> and no cancellation, every Result emitted so far is the one
  the synchronous computation gives for the item at the same position; and once the
  output is closed without the early stop having struck, the emitted sequence is the
  whole sequence of the synchronous computation (which then has not panicked). Until the
  output is closed the pipeline is never stuck, and it takes at most \<open>potential s\<close> more
  steps: the closed output is reached. (By the invariants the same holds for every
  number of workers; the statement is the one for a single worker.)
\<close>

theorem C5_sequential:
  assumes "reach rt opt fn zero xs s" and "Workers opt = 1" and "\<not> ctxDone s"
  shows "(\<forall>k < length (emitted s).
            invoke opt fn zero (taskCtx opt False) (xs ! k) = Inr (r_res (emitted s ! k)))
    \<and> (col s = ColDone \<and> \<not> quota opt s
         \<longrightarrow> synchronous opt fn zero (taskCtx opt False) xs = Inr (map r_res (emitted s)))
    \<and> (panicked s = None \<and> col s \<noteq> ColDone \<longrightarrow> enabled (normalize opt) fn zero s \<noteq> [])
    \<and> (\<forall>evs s'. exec (normalize opt) fn zero evs s = Some s' \<longrightarrow> length evs \<le> potential s)"
proof -
  from reach_inv [OF assms(1)] have i: "inv (normalize opt) fn zero xs s" .
  have nth: "\<forall>k < length (emitted s).
      invoke opt fn zero (taskCtx opt False) (xs ! k) = Inr (r_res (emitted s ! k))"
  proof (intro allI impI)
    fix k assume "k < length (emitted s)"
    from emitted_nth [OF i this] assms(3)
    show "invoke opt fn zero (taskCtx opt False) (xs ! k) = Inr (r_res (emitted s ! k))"
      by auto
  qed
  have fin: "col s = ColDone \<and> \<not> quota opt s
         \<longrightarrow> synchronous opt fn zero (taskCtx opt False) xs = Inr (map r_res (emitted s))"
  proof
    assume a: "col s = ColDone \<and> \<not> quota opt s"
    with complete [OF i Workers_normalize_pos assms(3)]
    have l: "length (emitted s) = length xs" by simp
    with nth show "synchronous opt fn zero (taskCtx opt False) xs = Inr (map r_res (emitted s))"
      by (intro synchronous_eq) auto
  qed
  have pr: "panicked s = None \<and> col s \<noteq> ColDone \<longrightarrow> enabled (normalize opt) fn zero s \<noteq> []"
  proof
    assume "panicked s = None \<and> col s \<noteq> ColDone"
    with progress [OF i capacity_pos] show "enabled (normalize opt) fn zero s \<noteq> []"
      by (simp add: enabled_Nil)
  qed
  have bd: "\<forall>evs s'. exec (normalize opt) fn zero evs s = Some s' \<longrightarrow> length evs \<le> potential s"
  proof (intro allI impI)
    fix evs s' assume e: "exec (normalize opt) fn zero evs s = Some s'"
    from i have "finite (dom (buffer s))" by (simp add: inv_def)
    from exec_bounded [OF e this] show "length evs \<le> potential s" by simp
  qed
  from nth fin pr bd show ?thesis by blast
qed

theorem C5_sequential_witness:
  "reach sample_rt opts_single sample_fn 0 [1, -2] end_single
   \<and> Workers opts_single = 1 \<and> ctxDone end_single = False \<and> col end_single = ColDone
   \<and> quota opts_single end_single = False
   \<and> synchronous opts_single sample_fn 0 (taskCtx opts_single False) [1, -2]
       = Inr (map r_res (emitted end_single))
   \<and> map r_res (emitted end_single)
       = [\<lparr>Value = 2, Err = None\<rparr>, \<lparr>Value = 0, Err = Some (Failure ''negative'')\<rparr>]"
proof -
  have r: "reach sample_rt opts_single sample_fn 0 [1, -2] end_single"
    and o: "emitted end_single =
       [\<lparr>r_index = 0, r_res = \<lparr>Value = 2, Err = None\<rparr>\<rparr>,
        \<lparr>r_index = 1, r_res = \<lparr>Value = 0, Err = Some (Failure ''negative'')\<rparr>\<rparr>]"
    and d: "\<not> ctxDone end_single" and c: "col end_single = ColDone"
    using end_single_facts by (simp_all add: observe_def)
  have w: "Workers opts_single = 1" and q: "\<not> quota opts_single end_single"
    by (simp_all add: opts_single_def quota_def)
  from C5_sequential [OF r w d] c q
  have "synchronous opts_single sample_fn 0 (taskCtx opts_single False) [1, -2]
       = Inr (map r_res (emitted end_single))" by blast
  with r w d c q o show ?thesis by simp
qed

section \<open>Closing the output\<close>



section \<open>Faults and errors of the transform\<close>

lemma emitted_slot:
  assumes r: "reach rt opt fn zero xs s" and k: "k < length (emitted s)"
    and f: "\<forall>d. invoke opt fn zero (taskCtx opt d) (xs ! k) = Inr res"
  shows "emitted s ! k = \<lparr>r_index = k, r_res = res\<rparr>"
proof -
  from emitted_nth [OF reach_inv [OF r] k] obtain d where
    ix: "r_index (emitted s ! k) = k"
    and iv: "invoke opt fn zero (taskCtx opt d) (xs ! k) = Inr (r_res (emitted s ! k))"
    by auto
  from iv f have "r_res (emitted s ! k) = res" by simp
  with ix show ?thesis by simp
qed

lemma no_step_after_panic: "panicked s \<noteq> None \<Longrightarrow> step opt fn zero a s = None"
  by (auto simp: step_def)

text \<open>
  C9. The message of a \<open>PanicError\<close> is the constant \<open>panic occurred\<close> whatever the
  payload, which the message never includes; the payload is kept unchanged in the field
  \<open>Panic\<close>; and this is the error a worker builds from a recovered panic.
\<close>

theorem C9_panic_error:
  "Error (PanicError p) = ''panic occurred''
   \<and> Error (PanicError p) = Error (PanicError q)
   \<and> Panic (PanicError p) = p
   \<and> (PanicAsError opt \<and> fn c v = Panics p
        \<longrightarrow> (\<exists>r e. invoke opt fn zero c v = Inr r \<and> Err r = Some (Recovered e)
                  \<and> Panic e = p \<and> Error e = ''panic occurred''))"
  by (simp add: Error_def invoke_def)

theorem C9_panic_error_witness:
  "Error (PanicError ''boom'') = ''panic occurred''
   \<and> Panic (PanicError ''boom'') = ''boom''
   \<and> PanicAsError opts_pool \<and> sample_fn (taskCtx opts_pool False) 0 = Panics ''boom''
   \<and> (\<exists>r e. invoke opts_pool sample_fn (0::int) (taskCtx opts_pool False) 0 = Inr r
          \<and> Err r = Some (Recovered e) \<and> Panic e = ''boom'' \<and> Error e = ''panic occurred'')"
proof -
  have a: "PanicAsError opts_pool" by (simp add: opts_pool_def)
  have b: "sample_fn (taskCtx opts_pool False) 0 = Panics ''boom''" by (simp add: sample_fn_def)
  note t = C9_panic_error [of "''boom''" "''boom''" opts_pool sample_fn "taskCtx opts_pool False" 0 0]
  from t have 1: "Error (PanicError ''boom'') = ''panic occurred''" by (rule conjunct1)
  from t have 2: "Panic (PanicError ''boom'') = ''boom''" by (elim conjE)
  have 3: "\<exists>r e. invoke opts_pool sample_fn (0::int) (taskCtx opts_pool False) 0 = Inr r
          \<and> Err r = Some (Recovered e) \<and> Panic e = ''boom'' \<and> Error e = ''panic occurred''"
    using t a b by - (elim conjE, simp)
  from 1 2 a b 3 show ?thesis by (intro conjI)
qed

text \<open>
  C4. When the transform panics with payload \<open>p\<close>: with \<open>PanicAsError\<close> the worker's
  invocation yields the Result with the zero value and the error \<open>PanicError p\<close>, the
  worker goes on to send it under the task's index, no reachable state has a panic that
  left a worker, and the Result emitted for slot \<open>k\<close> carries that error; without
  \<open>PanicAsError\<close> the invocation panics again with \<open>p\<close>, which leaves the worker and
  ends the process: no goroutine takes another step.
\<close>

theorem C4_fault:
  "(fn c v = Panics p \<and> PanicAsError opt
      \<longrightarrow> invoke opt fn zero c v = Inr \<lparr>Value = zero, Err = Some (Recovered (PanicError p))\<rparr>)
   \<and> (fn c v = Panics p \<and> \<not> PanicAsError opt \<longrightarrow> invoke opt fn zero c v = Inl p)
   \<and> (panicked s = None \<and> w < length (workers s) \<and> workers s ! w = WCall t
        \<and> fn (taskCtx opt (ctxDone s)) (t_value t) = Panics p
      \<longrightarrow> step opt fn zero (WInvoke w) s =
            Some (if PanicAsError opt
                  then s\<lparr>workers := (workers s)[w := WSend \<lparr>r_index = t_index t,
                          r_res = \<lparr>Value = zero, Err = Some (Recovered (PanicError p))\<rparr>\<rparr>]\<rparr>
                  else s\<lparr>panicked := Some p\<rparr>))
   \<and> (panicked s \<noteq> None \<longrightarrow> step opt fn zero a s = None)
   \<and> (reach rt opt fn zero xs s' \<and> PanicAsError opt \<longrightarrow> panicked s' = None)
   \<and> (reach rt opt fn zero xs s' \<and> PanicAsError opt \<and> k < length (emitted s')
        \<and> (\<forall>d. fn (taskCtx opt d) (xs ! k) = Panics p)
      \<longrightarrow> emitted s' ! k =
            \<lparr>r_index = k, r_res = \<lparr>Value = zero, Err = Some (Recovered (PanicError p))\<rparr>\<rparr>)"
proof (intro conjI impI)
  assume "fn c v = Panics p \<and> PanicAsError opt"
  then show "invoke opt fn zero c v = Inr \<lparr>Value = zero, Err = Some (Recovered (PanicError p))\<rparr>"
    by (simp add: invoke_def)
next
  assume "fn c v = Panics p \<and> \<not> PanicAsError opt"
  then show "invoke opt fn zero c v = Inl p" by (simp add: invoke_def)
next
  assume "panicked s = None \<and> w < length (workers s) \<and> workers s ! w = WCall t
        \<and> fn (taskCtx opt (ctxDone s)) (t_value t) = Panics p"
  then show "step opt fn zero (WInvoke w) s =
            Some (if PanicAsError opt
                  then s\<lparr>workers := (workers s)[w := WSend \<lparr>r_index = t_index t,
                          r_res = \<lparr>Value = zero, Err = Some (Recovered (PanicError p))\<rparr>\<rparr>]\<rparr>
                  else s\<lparr>panicked := Some p\<rparr>)"
    by (simp add: step_def wInvoke_def invoke_def)
next
  assume "panicked s \<noteq> None"
  then show "step opt fn zero a s = None" by (rule no_step_after_panic)
next
  assume a: "reach rt opt fn zero xs s' \<and> PanicAsError opt"
  then have "reach rt opt fn zero xs s'" by simp
  then have "inv (normalize opt) fn zero xs s'" by (rule reach_inv)
  with a show "panicked s' = None" by (simp add: inv_def inv_nopanic_def normalize_others)
next
  assume a: "reach rt opt fn zero xs s' \<and> PanicAsError opt \<and> k < length (emitted s')
        \<and> (\<forall>d. fn (taskCtx opt d) (xs ! k) = Panics p)"
  then have f: "\<forall>d. invoke opt fn zero (taskCtx opt d) (xs ! k)
      = Inr \<lparr>Value = zero, Err = Some (Recovered (PanicError p))\<rparr>"
    by (simp add: invoke_def)
  from a have r: "reach rt opt fn zero xs s'" and k: "k < length (emitted s')" by simp_all
  from emitted_slot [OF r k f] show "emitted s' ! k =
            \<lparr>r_index = k, r_res = \<lparr>Value = zero, Err = Some (Recovered (PanicError p))\<rparr>\<rparr>" .
qed

theorem C4_fault_witness:
  "reach sample_rt opts_pool sample_fn 0 [1, 0, -1] end_pool \<and> PanicAsError opts_pool
   \<and> sample_fn (taskCtx opts_pool False) ([1, 0, -1] ! 1) = Panics ''boom''
   \<and> panicked end_pool = None
   \<and> emitted end_pool ! 1 =
        \<lparr>r_index = 1, r_res = \<lparr>Value = 0, Err = Some (Recovered (PanicError ''boom''))\<rparr>\<rparr>
   \<and> PanicAsError opts_single = False
   \<and> invoke opts_single sample_fn (0::int) (taskCtx opts_single False) 0 = Inl ''boom''"
proof -
  have r: "reach sample_rt opts_pool sample_fn 0 [1, 0, -1] end_pool"
    and l: "length (emitted end_pool) = 3"
    using end_pool_facts by (simp_all add: observe_def)
  have pa: "PanicAsError opts_pool" by (simp add: opts_pool_def)
  have f: "\<forall>d. sample_fn (taskCtx opts_pool d) ([1, 0, -1] ! 1) = Panics ''boom''"
    by (simp add: sample_fn_def)
  from l have k: "1 < length (emitted end_pool)" by simp
  note t = C4_fault [where opt = opts_pool and fn = sample_fn and zero = 0 and xs = "[1, 0, -1]"
      and s' = end_pool and k = 1 and p = "''boom''"]
  from r pa have 1: "panicked end_pool = None"
    using t [THEN conjunct2, THEN conjunct2, THEN conjunct2, THEN conjunct2, THEN conjunct1]
    by simp
  from r pa k f have 2: "emitted end_pool ! 1 =
        \<lparr>r_index = 1, r_res = \<lparr>Value = 0, Err = Some (Recovered (PanicError ''boom''))\<rparr>\<rparr>"
    using t [THEN conjunct2, THEN conjunct2, THEN conjunct2, THEN conjunct2, THEN conjunct2]
    by simp
  have np: "\<not> PanicAsError opts_single" by (simp add: opts_single_def)
  have g: "sample_fn (taskCtx opts_single False) 0 = Panics ''boom''" by (simp add: sample_fn_def)
  from np g have 3: "invoke opts_single sample_fn (0::int) (taskCtx opts_single False) 0 = Inl ''boom''"
    using C4_fault [where opt = opts_single and fn = sample_fn and zero = "0::int"
      and c = "taskCtx opts_single False" and v = 0 and p = "''boom''",
      THEN conjunct2, THEN conjunct1]
    by simp
  from f have f1: "sample_fn (taskCtx opts_pool False) ([1, 0, -1] ! 1) = Panics ''boom''" by simp
  from r pa f1 1 2 np 3 show ?thesis by (intro conjI) simp_all
qed

text \<open>
  C7. An ordinary error of the transform does not abort anything: the worker's invocation
  turns it into a Result with that error; the collector, after sending a Result with an
  error, moves its cursor to the next index and goes on (it neither counts a success nor
  returns, whatever \<open>EarlyStopN\<close> is); the Result emitted for slot \<open>k\<close> carries the error
  and sits at position \<open>k\<close>; and when the output is closed without cancellation and
  without early stop, a Result has been emitted for every input item, those after the
  failing one included.
\<close>

theorem C7_error_result:
  "(fn c v = Returns r (Some e) \<longrightarrow> invoke opt fn zero c v = Inr \<lparr>Value = r, Err = Some e\<rparr>)
   \<and> (panicked s = None \<and> col s = ColSelect item \<and> Err item \<noteq> None
        \<and> length (outputChan s) < capacity opt
      \<longrightarrow> step opt fn zero ColSend s =
            Some (s\<lparr>outputChan := outputChan s @ [item],
                    emitted := emitted s @ [\<lparr>r_index = nextIndex s, r_res = item\<rparr>],
                    nextIndex := nextIndex s + 1, col := ColLookup\<rparr>))
   \<and> (reach rt opt fn zero xs s' \<and> k < length (emitted s')
        \<and> (\<forall>d. fn (taskCtx opt d) (xs ! k) = Returns r (Some e))
      \<longrightarrow> emitted s' ! k = \<lparr>r_index = k, r_res = \<lparr>Value = r, Err = Some e\<rparr>\<rparr>)
   \<and> (reach rt opt fn zero xs s' \<and> \<not> ctxDone s' \<and> col s' = ColDone \<and> \<not> quota opt s'
      \<longrightarrow> length (emitted s') = length xs)"
proof (intro conjI impI)
  assume "fn c v = Returns r (Some e)"
  then show "invoke opt fn zero c v = Inr \<lparr>Value = r, Err = Some e\<rparr>"
    by (simp add: invoke_def)
next
  assume "panicked s = None \<and> col s = ColSelect item \<and> Err item \<noteq> None
        \<and> length (outputChan s) < capacity opt"
  then show "step opt fn zero ColSend s =
            Some (s\<lparr>outputChan := outputChan s @ [item],
                    emitted := emitted s @ [\<lparr>r_index = nextIndex s, r_res = item\<rparr>],
                    nextIndex := nextIndex s + 1, col := ColLookup\<rparr>)"
    by (auto simp: step_def colSend_def Let_def)
next
  assume a: "reach rt opt fn zero xs s' \<and> k < length (emitted s')
        \<and> (\<forall>d. fn (taskCtx opt d) (xs ! k) = Returns r (Some e))"
  then have f: "\<forall>d. invoke opt fn zero (taskCtx opt d) (xs ! k) = Inr \<lparr>Value = r, Err = Some e\<rparr>"
    by (simp add: invoke_def)
  from a have r: "reach rt opt fn zero xs s'" and k: "k < length (emitted s')" by simp_all
  from emitted_slot [OF r k f]
  show "emitted s' ! k = \<lparr>r_index = k, r_res = \<lparr>Value = r, Err = Some e\<rparr>\<rparr>" .
next
  assume a: "reach rt opt fn zero xs s' \<and> \<not> ctxDone s' \<and> col s' = ColDone \<and> \<not> quota opt s'"
  then have "reach rt opt fn zero xs s'" by simp
  then have i: "inv (normalize opt) fn zero xs s'" by (rule reach_inv)
  from a have "\<not> ctxDone s'" "col s' = ColDone" "\<not> quota (normalize opt) s'" by simp_all
  from complete [OF i Workers_normalize_pos this] show "length (emitted s') = length xs" .
qed

theorem C7_error_result_witness:
  "reach sample_rt opts_pool sample_fn 0 [1, 0, -1] end_pool
   \<and> sample_fn (taskCtx opts_pool False) ([1, 0, -1] ! 2) = Returns 0 (Some (Failure ''negative''))
   \<and> emitted end_pool ! 2 =
        \<lparr>r_index = 2, r_res = \<lparr>Value = 0, Err = Some (Failure ''negative'')\<rparr>\<rparr>
   \<and> reach sample_rt opts_single sample_fn 0 [1, -2] end_single
   \<and> ctxDone end_single = False \<and> col end_single = ColDone
   \<and> length (emitted end_single) = length [1, -2 :: int]"
proof -
  have r: "reach sample_rt opts_pool sample_fn 0 [1, 0, -1] end_pool"
    and l: "length (emitted end_pool) = 3"
    using end_pool_facts by (simp_all add: observe_def)
  have f: "\<forall>d. sample_fn (taskCtx opts_pool d) ([1, 0, -1] ! 2) = Returns 0 (Some (Failure ''negative''))"
    by (simp add: sample_fn_def)
  from l have k: "2 < length (emitted end_pool)" by simp
  from r k f have 1: "emitted end_pool ! 2 =
        \<lparr>r_index = 2, r_res = \<lparr>Value = 0, Err = Some (Failure ''negative'')\<rparr>\<rparr>"
    using C7_error_result [where opt = opts_pool and fn = sample_fn and zero = 0
      and xs = "[1, 0, -1]" and s' = end_pool and k = 2 and r = 0 and e = "Failure ''negative''",
      THEN conjunct2, THEN conjunct2, THEN conjunct1]
    by simp
  have r': "reach sample_rt opts_single sample_fn 0 [1, -2] end_single"
    and d': "\<not> ctxDone end_single" and c': "col end_single = ColDone"
    using end_single_facts by (simp_all add: observe_def)
  have q': "\<not> quota opts_single end_single" by (simp add: quota_def opts_single_def)
  from r' d' c' q' have 2: "length (emitted end_single) = length [1, -2 :: int]"
    using C7_error_result [where opt = opts_single and fn = sample_fn and zero = 0
      and xs = "[1, -2]" and s' = end_single,
      THEN conjunct2, THEN conjunct2, THEN conjunct2]
    by simp
  from f have f2: "sample_fn (taskCtx opts_pool False) ([1, 0, -1] ! 2) = Returns 0 (Some (Failure ''negative''))"
    by simp
  from r f2 1 r' d' c' 2 show ?thesis by (intro conjI) simp_all
qed

section \<open>After the collector has returned\<close>

lemma done_step:
  assumes "step opt fn zero a s = Some s'" "col s = ColDone"
  shows "col s' = ColDone \<and> emitted s' = emitted s \<and> outputCloses s' = outputCloses s
         \<and> buffer s' = buffer s"
  using assms by (cases rule: step_cases) auto

lemma done_exec:
  assumes "exec opt fn zero evs s = Some s'" "col s = ColDone"
  shows "col s' = ColDone \<and> emitted s' = emitted s \<and> outputCloses s' = outputCloses s
         \<and> buffer s' = buffer s"
  using assms
proof (induction evs arbitrary: s)
  case Nil
  then show ?case by simp
next
  case (Cons a evs)
  from Cons.prems(1) obtain s1 where s1: "step opt fn zero a s = Some s1"
    and e1: "exec opt fn zero evs s1 = Some s'"
    by (auto split: option.splits)
  from done_step [OF s1 Cons.prems(2)] Cons.IH [OF e1] show ?case by simp
qed

text \<open>
  C10. The lookup of line 92 removes the Result from the reorder buffer (line 93) before
  the \<open>select\<close> of lines 94-104 tries to send it: after the lookup step the Result is
  only held in \<open>item\<close>, nothing has been emitted, and while \<open>output\<close> is full the send
  is not enabled. Once the context is cancelled the collector can take the \<open>ctx.Done()\<close>
  case: it returns, \<open>close(output)\<close> runs, the Result is neither in the buffer nor
  emitted, and no later step of any run emits anything.
\<close>

theorem C10_discard:
  assumes "panicked s = None" and "col s = ColLookup" and "buffer s (nextIndex s) = Some item"
  shows "\<exists>s1 s2.
      step opt fn zero ColCheck s = Some s1
    \<and> col s1 = ColSelect item \<and> buffer s1 (nextIndex s) = None
    \<and> emitted s1 = emitted s \<and> outputChan s1 = outputChan s
    \<and> (capacity opt \<le> length (outputChan s1) \<longrightarrow> step opt fn zero ColSend s1 = None)
    \<and> (\<not> ctxDone s1 \<longrightarrow> step opt fn zero ColCancel s1 = None)
    \<and> step opt fn zero ColCancel (s1\<lparr>ctxDone := True\<rparr>) = Some s2
    \<and> col s2 = ColDone \<and> outputCloses s2 = outputCloses s + 1
    \<and> emitted s2 = emitted s \<and> outputChan s2 = outputChan s \<and> buffer s2 (nextIndex s) = None
    \<and> (\<forall>evs s3. exec opt fn zero evs s2 = Some s3
          \<longrightarrow> col s3 = ColDone \<and> emitted s3 = emitted s \<and> buffer s3 (nextIndex s) = None
              \<and> outputCloses s3 = outputCloses s + 1)"
proof -
  define s1 where "s1 = s\<lparr>buffer := (buffer s)(nextIndex s := None), col := ColSelect item\<rparr>"
  define s2 where "s2 = s1\<lparr>ctxDone := True, col := ColDone, outputCloses := outputCloses s1 + 1\<rparr>"
  from assms have a: "step opt fn zero ColCheck s = Some s1"
    by (simp add: step_def colCheck_def s1_def)
  from assms have b: "col s1 = ColSelect item" "buffer s1 (nextIndex s) = None"
    "emitted s1 = emitted s" "outputChan s1 = outputChan s" "panicked s1 = None"
    by (simp_all add: s1_def)
  from b have c: "capacity opt \<le> length (outputChan s1) \<longrightarrow> step opt fn zero ColSend s1 = None"
    by (simp add: step_def colSend_def)
  from b have d: "\<not> ctxDone s1 \<longrightarrow> step opt fn zero ColCancel s1 = None"
    by (simp add: step_def colCancel_def)
  from b have e: "step opt fn zero ColCancel (s1\<lparr>ctxDone := True\<rparr>) = Some s2"
    by (simp add: step_def colCancel_def s2_def)
  have f: "col s2 = ColDone" "outputCloses s2 = outputCloses s + 1" "emitted s2 = emitted s"
    "outputChan s2 = outputChan s" "buffer s2 (nextIndex s) = None"
    by (simp_all add: s2_def s1_def)
  have g: "\<forall>evs s3. exec opt fn zero evs s2 = Some s3
          \<longrightarrow> col s3 = ColDone \<and> emitted s3 = emitted s \<and> buffer s3 (nextIndex s) = None
              \<and> outputCloses s3 = outputCloses s + 1"
  proof (intro allI impI)
    fix evs s3 assume "exec opt fn zero evs s2 = Some s3"
    from done_exec [OF this f(1)] f
    show "col s3 = ColDone \<and> emitted s3 = emitted s \<and> buffer s3 (nextIndex s) = None
              \<and> outputCloses s3 = outputCloses s + 1" by simp
  qed
  show ?thesis
    apply (rule exI [of _ s1])
    apply (rule exI [of _ s2])
    apply (intro conjI)
                 apply (rule a)
                apply (rule b(1))
               apply (rule b(2))
              apply (rule b(3))
             apply (rule b(4))
            apply (rule c)
           apply (rule d)
          apply (rule e)
         apply (rule f(1))
        apply (rule f(2))
       apply (rule f(3))
      apply (rule f(4))
     apply (rule f(5))
    apply (rule g)
    done
qed

theorem C10_discard_witness:
  "panicked at_lookup = None \<and> col at_lookup = ColLookup
   \<and> buffer at_lookup (nextIndex at_lookup) = Some \<lparr>Value = 2, Err = None\<rparr>
   \<and> emitted at_lookup = []
   \<and> (\<exists>s1 s2.
        step (normalize opts_single) sample_fn 0 ColCheck at_lookup = Some s1
      \<and> col s1 = ColSelect \<lparr>Value = 2, Err = None\<rparr>
      \<and> step (normalize opts_single) sample_fn 0 ColCancel (s1\<lparr>ctxDone := True\<rparr>) = Some s2
      \<and> col s2 = ColDone \<and> outputCloses s2 = 1 \<and> emitted s2 = []
      \<and> buffer s2 (nextIndex at_lookup) = None)"
proof -
  have p: "panicked at_lookup = None" and c: "col at_lookup = ColLookup"
    and b: "buffer at_lookup (nextIndex at_lookup) = Some \<lparr>Value = 2, Err = None\<rparr>"
    and e: "emitted at_lookup = []" and o: "outputCloses at_lookup = 0"
    using at_lookup_facts by (auto simp: observe_def)
  from C10_discard [OF p c b, of "normalize opts_single" sample_fn 0]
  obtain s1 s2 where
    "step (normalize opts_single) sample_fn 0 ColCheck at_lookup = Some s1"
    "col s1 = ColSelect \<lparr>Value = 2, Err = None\<rparr>"
    "step (normalize opts_single) sample_fn 0 ColCancel (s1\<lparr>ctxDone := True\<rparr>) = Some s2"
    "col s2 = ColDone" "outputCloses s2 = outputCloses at_lookup + 1"
    "emitted s2 = emitted at_lookup" "buffer s2 (nextIndex at_lookup) = None"
    by blast
  with e o have "\<exists>s1 s2.
        step (normalize opts_single) sample_fn 0 ColCheck at_lookup = Some s1
      \<and> col s1 = ColSelect \<lparr>Value = 2, Err = None\<rparr>
      \<and> step (normalize opts_single) sample_fn 0 ColCancel (s1\<lparr>ctxDone := True\<rparr>) = Some s2
      \<and> col s2 = ColDone \<and> outputCloses s2 = 1 \<and> emitted s2 = []
      \<and> buffer s2 (nextIndex at_lookup) = None"
    by auto
  with p c b e show ?thesis by simp
qed

section \<open>Early stop\<close>

lemma strand_step:
  assumes "step opt fn zero a s = Some s'" and "a \<noteq> Cancel"
    and "col s = ColDone" and "w < length (workers s)" and "workers s ! w = WSend ir"
    and "capacity opt \<le> length (resultChan s)" and "\<not> ctxDone s"
  shows "col s' = ColDone \<and> w < length (workers s') \<and> workers s' ! w = WSend ir
         \<and> capacity opt \<le> length (resultChan s') \<and> \<not> ctxDone s'"
  using assms by (cases rule: step_cases) (auto simp: nth_list_update)

lemma strand_exec:
  assumes "exec opt fn zero evs s = Some s'" and "Cancel \<notin> set evs"
    and "col s = ColDone" and "w < length (workers s)" and "workers s ! w = WSend ir"
    and "capacity opt \<le> length (resultChan s)" and "\<not> ctxDone s"
  shows "col s' = ColDone \<and> w < length (workers s') \<and> workers s' ! w = WSend ir
         \<and> capacity opt \<le> length (resultChan s') \<and> \<not> ctxDone s'"
  using assms
proof (induction evs arbitrary: s)
  case Nil
  then show ?case by simp
next
  case (Cons a evs)
  from Cons.prems(1) obtain s1 where s1: "step opt fn zero a s = Some s1"
    and e1: "exec opt fn zero evs s1 = Some s'"
    by (auto split: option.splits)
  from Cons.prems(2) have na: "a \<noteq> Cancel" and ne: "Cancel \<notin> set evs" by auto
  from strand_step [OF s1 na Cons.prems(3-7)]
  have "col s1 = ColDone" "w < length (workers s1)" "workers s1 ! w = WSend ir"
    "capacity opt \<le> length (resultChan s1)" "\<not> ctxDone s1" by simp_all
  from Cons.IH [OF e1 ne this] show ?case .
qed

lemma ctxDone_step:
  assumes "step opt fn zero a s = Some s'" and "a \<noteq> Cancel"
  shows "ctxDone s' = ctxDone s"
  using assms by (cases rule: step_cases) auto

text \<open>
  C3 as the code has it. The early stop is the return of line 101 and nothing else: the
  step that reaches the quota closes \<open>output\<close> and leaves the context, the workers and
  the submitter as they are, and no step of any goroutine ever changes the cancellation
  signal, which only the caller's cancellation sets. So after the collector has returned,
  a worker that is blocked sending to the full result queue stays blocked, whatever the
  other goroutines do, as long as the caller does not cancel; once the caller has
  cancelled, the worker and a submitter blocked on the task queue can leave through their
  \<open>ctx.Done()\<close> cases.
\<close>

theorem C3_no_broadcast:
  "(step opt fn zero a s = Some s' \<and> a \<noteq> Cancel \<longrightarrow> ctxDone s' = ctxDone s)
   \<and> (panicked s = None \<and> col s = ColSelect item \<and> Err item = None
        \<and> length (outputChan s) < capacity opt
        \<and> 0 < EarlyStopN opt \<and> EarlyStopN opt \<le> int (successCount s + 1)
      \<longrightarrow> step opt fn zero ColSend s =
            Some (s\<lparr>outputChan := outputChan s @ [item],
                    emitted := emitted s @ [\<lparr>r_index = nextIndex s, r_res = item\<rparr>],
                    successCount := successCount s + 1,
                    col := ColDone, outputCloses := outputCloses s + 1\<rparr>))
   \<and> (col s = ColDone \<and> w < length (workers s) \<and> workers s ! w = WSend ir
        \<and> capacity opt \<le> length (resultChan s) \<and> \<not> ctxDone s
        \<and> Cancel \<notin> set evs \<and> exec opt fn zero evs s = Some u
      \<longrightarrow> workers u ! w = WSend ir \<and> \<not> ctxDone u
          \<and> step opt fn zero (WPush w) u = None \<and> step opt fn zero (WAbort w) u = None)
   \<and> (panicked s = None \<and> ctxDone s \<and> w < length (workers s) \<and> workers s ! w = WSend ir
      \<longrightarrow> step opt fn zero (WAbort w) s = Some (s\<lparr>workers := (workers s)[w := WDone]\<rparr>))
   \<and> (panicked s = None \<and> ctxDone s \<and> sub s = SubSelect v
      \<longrightarrow> step opt fn zero SubCancel s = Some (s\<lparr>sub := SubDone, taskClosed := True\<rparr>))"
proof -
  have c1: "step opt fn zero a s = Some s' \<and> a \<noteq> Cancel \<longrightarrow> ctxDone s' = ctxDone s"
  proof
    assume "step opt fn zero a s = Some s' \<and> a \<noteq> Cancel"
    then have "step opt fn zero a s = Some s'" and "a \<noteq> Cancel" by simp_all
    then show "ctxDone s' = ctxDone s" by (rule ctxDone_step)
  qed
  have c2: "panicked s = None \<and> col s = ColSelect item \<and> Err item = None
        \<and> length (outputChan s) < capacity opt
        \<and> 0 < EarlyStopN opt \<and> EarlyStopN opt \<le> int (successCount s + 1)
      \<longrightarrow> step opt fn zero ColSend s =
            Some (s\<lparr>outputChan := outputChan s @ [item],
                    emitted := emitted s @ [\<lparr>r_index = nextIndex s, r_res = item\<rparr>],
                    successCount := successCount s + 1,
                    col := ColDone, outputCloses := outputCloses s + 1\<rparr>)"
    by (simp add: step_def colSend_def Let_def)
  have c3: "col s = ColDone \<and> w < length (workers s) \<and> workers s ! w = WSend ir
        \<and> capacity opt \<le> length (resultChan s) \<and> \<not> ctxDone s
        \<and> Cancel \<notin> set evs \<and> exec opt fn zero evs s = Some u
      \<longrightarrow> workers u ! w = WSend ir \<and> \<not> ctxDone u
          \<and> step opt fn zero (WPush w) u = None \<and> step opt fn zero (WAbort w) u = None"
  proof
    assume a: "col s = ColDone \<and> w < length (workers s) \<and> workers s ! w = WSend ir
        \<and> capacity opt \<le> length (resultChan s) \<and> \<not> ctxDone s
        \<and> Cancel \<notin> set evs \<and> exec opt fn zero evs s = Some u"
    then have "exec opt fn zero evs s = Some u" "Cancel \<notin> set evs" "col s = ColDone"
      "w < length (workers s)" "workers s ! w = WSend ir"
      "capacity opt \<le> length (resultChan s)" "\<not> ctxDone s" by simp_all
    from strand_exec [OF this]
    have b: "w < length (workers u)" "workers u ! w = WSend ir"
      "capacity opt \<le> length (resultChan u)" "\<not> ctxDone u" by simp_all
    then have "step opt fn zero (WPush w) u = None" "step opt fn zero (WAbort w) u = None"
      by (simp_all add: step_def wPush_def wAbort_def)
    with b show "workers u ! w = WSend ir \<and> \<not> ctxDone u
          \<and> step opt fn zero (WPush w) u = None \<and> step opt fn zero (WAbort w) u = None"
      by simp
  qed
  have c4: "panicked s = None \<and> ctxDone s \<and> w < length (workers s) \<and> workers s ! w = WSend ir
      \<longrightarrow> step opt fn zero (WAbort w) s = Some (s\<lparr>workers := (workers s)[w := WDone]\<rparr>)"
    by (simp add: step_def wAbort_def)
  have c5: "panicked s = None \<and> ctxDone s \<and> sub s = SubSelect v
      \<longrightarrow> step opt fn zero SubCancel s = Some (s\<lparr>sub := SubDone, taskClosed := True\<rparr>)"
    by (simp add: step_def subCancel_def)
  from c1 c2 c3 c4 c5 show ?thesis by (intro conjI)
qed

lemma strand_view:
  "col end_strand = ColDone" "outputCloses end_strand = 1" "ctxDone end_strand = False"
  "panicked end_strand = None"
  "workers end_strand = [WSend \<lparr>r_index = 2, r_res = \<lparr>Value = 6, Err = None\<rparr>\<rparr>]"
  "sub end_strand = SubSelect 5"
  "length (resultChan end_strand) = 1" "length (taskChan end_strand) = 1"
  "enabled (normalize opts_stop) sample_fn 0 end_strand = []"
  "successes (emitted end_strand) = 1"
  using end_strand_facts by (simp_all add: observe_def successes_def)

text \<open>
  The claim fails on the run \<open>sched_strand\<close>: with one worker, capacity 1 and
  \<open>EarlyStopN = 1\<close> on five items, the quota has been reached and \<open>output\<close> is closed,
  the context is not cancelled, the worker is blocked sending Result 2 to the full result
  queue, the submitter is blocked sending item 5 to the full task queue, and no step but
  the caller's cancellation is enabled.
\<close>

theorem C3_stranded_counterexample:
  "EarlyStopN opts_stop = 1 \<and> successes (emitted end_strand) = 1
   \<and> col end_strand = ColDone \<and> outputCloses end_strand = 1
   \<and> ctxDone end_strand = False \<and> panicked end_strand = None
   \<and> workers end_strand = [WSend \<lparr>r_index = 2, r_res = \<lparr>Value = 6, Err = None\<rparr>\<rparr>]
   \<and> length (resultChan end_strand) = capacity (normalize opts_stop)
   \<and> sub end_strand = SubSelect 5
   \<and> length (taskChan end_strand) = capacity (normalize opts_stop)
   \<and> enabled (normalize opts_stop) sample_fn 0 end_strand = []"
  using strand_view by (simp add: opts_stop_def capacity_def normalize_def)

theorem C3_no_broadcast_witness:
  "col end_strand = ColDone \<and> ctxDone end_strand = False
   \<and> workers end_strand ! 0 = WSend \<lparr>r_index = 2, r_res = \<lparr>Value = 6, Err = None\<rparr>\<rparr>
   \<and> step (normalize opts_stop) sample_fn 0 (WPush 0) end_strand = None
   \<and> step (normalize opts_stop) sample_fn 0 (WAbort 0) end_strand = None
   \<and> step (normalize opts_stop) sample_fn 0 (WAbort 0) (end_strand\<lparr>ctxDone := True\<rparr>)
       = Some (end_strand\<lparr>ctxDone := True,
            workers := (workers (end_strand\<lparr>ctxDone := True\<rparr>))[0 := WDone]\<rparr>)"
proof -
  have c: "col end_strand = ColDone" and d: "\<not> ctxDone end_strand"
    and w: "workers end_strand ! 0 = WSend \<lparr>r_index = 2, r_res = \<lparr>Value = 6, Err = None\<rparr>\<rparr>"
    and l: "0 < length (workers end_strand)"
    and f: "capacity (normalize opts_stop) \<le> length (resultChan end_strand)"
    and p: "panicked end_strand = None"
    using strand_view by (simp_all add: opts_stop_def capacity_def normalize_def)
  have e: "exec (normalize opts_stop) sample_fn 0 [] end_strand = Some end_strand" by simp
  have n: "Cancel \<notin> set []" by simp
  from c l w f d n e
  have 1: "step (normalize opts_stop) sample_fn 0 (WPush 0) end_strand = None
      \<and> step (normalize opts_stop) sample_fn 0 (WAbort 0) end_strand = None"
    using C3_no_broadcast [where opt = "normalize opts_stop" and fn = sample_fn and zero = 0
        and s = end_strand and w = 0 and evs = "[]" and u = end_strand
        and ir = "\<lparr>r_index = 2, r_res = \<lparr>Value = 6, Err = None\<rparr>\<rparr>",
        THEN conjunct2, THEN conjunct2, THEN conjunct1]
    by simp
  from p l w
  have 2: "step (normalize opts_stop) sample_fn 0 (WAbort 0) (end_strand\<lparr>ctxDone := True\<rparr>)
       = Some (end_strand\<lparr>ctxDone := True,
            workers := (workers (end_strand\<lparr>ctxDone := True\<rparr>))[0 := WDone]\<rparr>)"
    using C3_no_broadcast [where opt = "normalize opts_stop" and fn = sample_fn and zero = 0
        and s = "end_strand\<lparr>ctxDone := True\<rparr>" and w = 0
        and ir = "\<lparr>r_index = 2, r_res = \<lparr>Value = 6, Err = None\<rparr>\<rparr>",
        THEN conjunct2, THEN conjunct2, THEN conjunct2, THEN conjunct1]
    by simp
  from c d w 1 2 show ?thesis by simp
qed

text \<open>
  C2 as the code has it. The collector sends every Result and counts only those without
  an error (lines 97-99), so the quota \<open>K = EarlyStopN > 0\<close> bounds the emitted
  successes, not the emitted Results. At every moment each emitted Result has fewer than
  \<open>K\<close> successes before it (nothing beyond the \<open>K\<close>-th success is emitted) and at most
  \<open>K\<close> successes have been emitted. When the output is closed, the context was not
  cancelled and at least \<open>K\<close> successes are available, exactly \<open>K\<close> successes have
  been emitted, the last emitted Result is the \<open>K\<close>-th success, the emitted Results are those
  of the input items from the first up to that one (the errors among them included), and
  \<open>output\<close> has been closed once. Until then the pipeline is never stuck, and it takes at
  most \<open>potential s\<close> more steps.
\<close>

theorem C2_early_stop:
  assumes "reach rt opt fn zero xs s" and "0 < EarlyStopN opt"
  shows "(\<forall>j < length (emitted s). int (successes (take j (emitted s))) < EarlyStopN opt)
    \<and> int (successes (emitted s)) \<le> EarlyStopN opt
    \<and> (\<not> ctxDone s \<and> col s = ColDone \<and> EarlyStopN opt \<le> int (available opt fn zero xs)
        \<longrightarrow> int (successes (emitted s)) = EarlyStopN opt
            \<and> emitted s \<noteq> [] \<and> Err (r_res (last (emitted s))) = None
            \<and> outputCloses s = 1
            \<and> (\<forall>k < length (emitted s).
                  r_index (emitted s ! k) = k \<and>
                  invoke opt fn zero (taskCtx opt False) (xs ! k) = Inr (r_res (emitted s ! k))))
    \<and> (panicked s = None \<and> col s \<noteq> ColDone \<longrightarrow> enabled (normalize opt) fn zero s \<noteq> [])
    \<and> (\<forall>evs s'. exec (normalize opt) fn zero evs s = Some s' \<longrightarrow> length evs \<le> potential s)"
proof -
  from reach_inv [OF assms(1)] have i: "inv (normalize opt) fn zero xs s" .
  from i assms(2) have sc: "successCount s = successes (emitted s)"
    and pre: "\<forall>j < length (emitted s). int (successes (take j (emitted s))) < EarlyStopN opt"
    and le: "int (successCount s) \<le> EarlyStopN opt"
    and eq: "int (successCount s) = EarlyStopN opt
             \<longrightarrow> emitted s \<noteq> [] \<and> Err (r_res (last (emitted s))) = None"
    by (simp_all add: inv_def inv_count_def normalize_others)
  from le sc have c2: "int (successes (emitted s)) \<le> EarlyStopN opt" by simp
  have c3: "\<not> ctxDone s \<and> col s = ColDone \<and> EarlyStopN opt \<le> int (available opt fn zero xs)
        \<longrightarrow> int (successes (emitted s)) = EarlyStopN opt
            \<and> emitted s \<noteq> [] \<and> Err (r_res (last (emitted s))) = None
            \<and> outputCloses s = 1
            \<and> (\<forall>k < length (emitted s).
                  r_index (emitted s ! k) = k \<and>
                  invoke opt fn zero (taskCtx opt False) (xs ! k) = Inr (r_res (emitted s ! k)))"
  proof
    assume a: "\<not> ctxDone s \<and> col s = ColDone \<and> EarlyStopN opt \<le> int (available opt fn zero xs)"
    then have nd: "\<not> ctxDone s" and cd: "col s = ColDone"
      and av: "EarlyStopN opt \<le> int (available opt fn zero xs)" by simp_all
    have nth: "\<forall>k < length (emitted s).
                  r_index (emitted s ! k) = k \<and>
                  invoke opt fn zero (taskCtx opt False) (xs ! k) = Inr (r_res (emitted s ! k))"
    proof (intro allI impI)
      fix k assume "k < length (emitted s)"
      from emitted_nth [OF i this] nd
      show "r_index (emitted s ! k) = k \<and>
                  invoke opt fn zero (taskCtx opt False) (xs ! k) = Inr (r_res (emitted s ! k))"
        by auto
    qed
    have q: "quota opt s"
    proof (rule ccontr)
      assume nq: "\<not> quota opt s"
      then have "\<not> quota (normalize opt) s" by simp
      from complete [OF i Workers_normalize_pos nd cd this]
      have l: "length (emitted s) = length xs" .
      with nth have "available opt fn zero xs = successes (emitted s)"
        by (intro available_eq) auto
      with av sc have "EarlyStopN opt \<le> int (successCount s)" by simp
      with assms(2) nq show False by (simp add: quota_def)
    qed
    with le have e: "int (successCount s) = EarlyStopN opt" by (simp add: quota_def)
    from i cd have oc: "outputCloses s = 1" by (simp add: inv_def inv_closes_def)
    from e eq sc oc nth show "int (successes (emitted s)) = EarlyStopN opt
            \<and> emitted s \<noteq> [] \<and> Err (r_res (last (emitted s))) = None
            \<and> outputCloses s = 1
            \<and> (\<forall>k < length (emitted s).
                  r_index (emitted s ! k) = k \<and>
                  invoke opt fn zero (taskCtx opt False) (xs ! k) = Inr (r_res (emitted s ! k)))"
      by simp
  qed
  have c4: "panicked s = None \<and> col s \<noteq> ColDone \<longrightarrow> enabled (normalize opt) fn zero s \<noteq> []"
  proof
    assume "panicked s = None \<and> col s \<noteq> ColDone"
    with progress [OF i capacity_pos] show "enabled (normalize opt) fn zero s \<noteq> []"
      by (simp add: enabled_Nil)
  qed
  have c5: "\<forall>evs s'. exec (normalize opt) fn zero evs s = Some s' \<longrightarrow> length evs \<le> potential s"
  proof (intro allI impI)
    fix evs s' assume e: "exec (normalize opt) fn zero evs s = Some s'"
    from i have "finite (dom (buffer s))" by (simp add: inv_def)
    from exec_bounded [OF e this] show "length evs \<le> potential s" by simp
  qed
  from pre c2 c3 c4 c5 show ?thesis by (intro conjI)
qed

lemma stop_view:
  "reach sample_rt opts_stop sample_fn 0 [-1, 1] end_stop"
  "emitted end_stop =
     [\<lparr>r_index = 0, r_res = \<lparr>Value = 0, Err = Some (Failure ''negative'')\<rparr>\<rparr>,
      \<lparr>r_index = 1, r_res = \<lparr>Value = 2, Err = None\<rparr>\<rparr>]"
  "col end_stop = ColDone" "outputCloses end_stop = 1" "ctxDone end_stop = False"
  "panicked end_stop = None"
  using end_stop_facts by (simp_all add: observe_def)

lemma stop_available: "available opts_stop sample_fn 0 [-1, 1] = 1"
  by (simp add: available_def invoke_def sample_fn_def)

text \<open>
  The claim fails on the input \<open>[-1, 1]\<close> with \<open>EarlyStopN = 1\<close>: one success is
  available, the context is never cancelled, and when \<open>output\<close> is closed two Results
  have been emitted, the error of the first item and the success of the second.
\<close>

theorem C2_exactly_K_counterexample:
  "EarlyStopN opts_stop = 1 \<and> available opts_stop sample_fn 0 [-1, 1] = 1
   \<and> reach sample_rt opts_stop sample_fn 0 [-1, 1] end_stop
   \<and> ctxDone end_stop = False \<and> col end_stop = ColDone \<and> outputCloses end_stop = 1
   \<and> length (emitted end_stop) = 2
   \<and> map r_res (emitted end_stop)
       = [\<lparr>Value = 0, Err = Some (Failure ''negative'')\<rparr>, \<lparr>Value = 2, Err = None\<rparr>]"
  using stop_view stop_available by (simp add: opts_stop_def)

theorem C2_early_stop_witness:
  "reach sample_rt opts_stop sample_fn 0 [-1, 1] end_stop \<and> 0 < EarlyStopN opts_stop
   \<and> ctxDone end_stop = False \<and> col end_stop = ColDone
   \<and> EarlyStopN opts_stop \<le> int (available opts_stop sample_fn 0 [-1, 1])
   \<and> int (successes (emitted end_stop)) = EarlyStopN opts_stop
   \<and> Err (r_res (last (emitted end_stop))) = None
   \<and> outputCloses end_stop = 1"
proof -
  have k: "0 < EarlyStopN opts_stop" and k1: "EarlyStopN opts_stop = 1"
    by (simp_all add: opts_stop_def)
  from k1 stop_available
  have av: "EarlyStopN opts_stop \<le> int (available opts_stop sample_fn 0 [-1, 1])" by simp
  have d: "\<not> ctxDone end_stop" and c: "col end_stop = ColDone"
    using stop_view by simp_all
  from d c av
  have "int (successes (emitted end_stop)) = EarlyStopN opts_stop
      \<and> emitted end_stop \<noteq> [] \<and> Err (r_res (last (emitted end_stop))) = None
      \<and> outputCloses end_stop = 1
      \<and> (\<forall>k < length (emitted end_stop).
            r_index (emitted end_stop ! k) = k \<and>
            invoke opts_stop sample_fn 0 (taskCtx opts_stop False) ([-1, 1] ! k)
              = Inr (r_res (emitted end_stop ! k)))"
    using C2_early_stop [OF stop_view(1) k, THEN conjunct2, THEN conjunct2, THEN conjunct1]
    by simp
  with stop_view(1) k d c av show ?thesis by simp
qed

end
